theory Spec2Isabelle
  imports Complex_Main "HOL-Library.Sublist"
begin

section \<open>The event log of RecordingCutter.js\<close>

text \<open>
  An rrweb event is a JavaScript object with the fields \<open>type\<close>, \<open>data\<close>,
  \<open>timestamp\<close> and an optional \<open>tabId\<close>. The payload \<open>data\<close> is arbitrary JSON.
  JavaScript numbers are modelled as rationals: sums, differences and comparisons of
  integer millisecond timestamps are exact in both worlds, and the one division of the
  code (the compression ratio of the fallback trimmer) is taken exactly.
\<close>

datatype json =
    JNull
  | JBool bool
  | JNum rat
  | JStr string
  | JArr "json list"
  | JObj "(string \<times> json) list"

record event =
  type :: nat
  data :: json
  timestamp :: rat
  tabId :: "string option"

text \<open>The errors the module throws, one constructor for each \<open>throw\<close> site.\<close>

datatype error =
    InvalidEventsArray
  | NoFullSnapshot
  | InvalidTimeRange rat rat
  | TooFewEvents nat
  | TypeError
  | SnapshotReturnedNull
  | ReplayError string
  | NonFiniteTimestamp

text \<open>JavaScript truthiness of a JSON value, and the property read \<open>v.k\<close>
  (\<open>undefined\<close> is \<open>None\<close>; only an object has own properties here).\<close>

fun truthy :: "json \<Rightarrow> bool" where
  "truthy JNull = False"
| "truthy (JBool b) = b"
| "truthy (JNum n) = (n \<noteq> 0)"
| "truthy (JStr s) = (s \<noteq> [])"
| "truthy (JArr xs) = True"
| "truthy (JObj kvs) = True"

fun getProp :: "json \<Rightarrow> string \<Rightarrow> json option" where
  "getProp (JObj kvs) k = map_of kvs k"
| "getProp v k = None"

subsection \<open>cutRecording\<close>

text \<open>
  The scan for the full snapshot closest to the cut start. The accumulator is the pair
  \<open>(fullSnapshot, bestDistance)\<close> of the loop; \<open>bestDistance = Infinity\<close> is \<open>None\<close>.
\<close>

fun closestSnapshot ::
  "rat \<Rightarrow> event list \<Rightarrow> event option \<times> rat option \<Rightarrow> event option \<times> rat option" where
  "closestSnapshot cutStartTime [] acc = acc"
| "closestSnapshot cutStartTime (e # es) (fullSnapshot, bestDistance) =
     (if type e = 2 then
        (let distance = \<bar>timestamp e - cutStartTime\<bar> in
         if (case bestDistance of None \<Rightarrow> True | Some b \<Rightarrow> distance < b)
         then closestSnapshot cutStartTime es (Some e, Some distance)
         else closestSnapshot cutStartTime es (fullSnapshot, bestDistance))
      else closestSnapshot cutStartTime es (fullSnapshot, bestDistance))"

definition cutStart :: "event list \<Rightarrow> rat \<Rightarrow> rat \<Rightarrow> rat" where
  "cutStart events centerTimeSeconds beforeSeconds =
     (let startTime = timestamp (hd events);
          centerTimestamp = startTime + centerTimeSeconds * 1000;
          beforeMs = beforeSeconds * 1000
      in centerTimestamp - beforeMs)"

definition cutEnd :: "event list \<Rightarrow> rat \<Rightarrow> rat \<Rightarrow> rat" where
  "cutEnd events centerTimeSeconds afterSeconds =
     (let startTime = timestamp (hd events);
          centerTimestamp = startTime + centerTimeSeconds * 1000;
          afterMs = afterSeconds * 1000
      in centerTimestamp + afterMs)"

text \<open>The filler event pushed when fewer than two events were collected;
  \<open>href\<close> is \<open>window.location.href\<close>.\<close>

definition cutFiller :: "string \<Rightarrow> rat \<Rightarrow> event" where
  "cutFiller href lastTimestamp =
     \<lparr>type = 4, data = JObj [(''href'', JStr href)], timestamp = lastTimestamp + 100,
      tabId = None\<rparr>"

definition cutEvents :: "string \<Rightarrow> event list \<Rightarrow> event \<Rightarrow> rat \<Rightarrow> rat \<Rightarrow> event list" where
  "cutEvents href events fullSnapshot cutStartTime cutEndTime =
     (let snapshotTime = timestamp fullSnapshot;
          rangeStart = min snapshotTime cutStartTime;
          rangeEnd = cutEndTime;
          neededEvents = filter (\<lambda>e. timestamp e \<ge> rangeStart \<and> timestamp e \<le> rangeEnd) events;
          newEvents = fullSnapshot #
            filter (\<lambda>e. timestamp e \<noteq> timestamp fullSnapshot \<or> type e \<noteq> 2) neededEvents;
          padded = (if length newEvents < 2
                    then newEvents @ [cutFiller href (timestamp (last newEvents))]
                    else newEvents)
      in sort_key timestamp padded)"

definition cutRecording ::
  "string \<Rightarrow> event list \<Rightarrow> rat \<Rightarrow> rat \<Rightarrow> rat \<Rightarrow> error + event list" where
  "cutRecording href events centerTimeSeconds beforeSeconds afterSeconds =
     (if events = [] then Inl InvalidEventsArray
      else
        let cutStartTime = cutStart events centerTimeSeconds beforeSeconds;
            cutEndTime = cutEnd events centerTimeSeconds afterSeconds
        in case fst (closestSnapshot cutStartTime events (None, None)) of
             None \<Rightarrow> Inl NoFullSnapshot
           | Some fullSnapshot \<Rightarrow>
               Inr (cutEvents href events fullSnapshot cutStartTime cutEndTime))"

subsection \<open>findEventsByContent and analyzeRecording\<close>

text \<open>
  \<open>String.prototype.toLowerCase\<close> on the ASCII letters, and \<open>String.prototype.includes\<close>
  as a scan over the start positions. \<open>JSON.stringify\<close> belongs to the host, not to the
  module: the search takes the serializer as a parameter.
\<close>

definition lowerChar :: "char \<Rightarrow> char" where
  "lowerChar c =
     (let n = (of_char c :: nat)
      in if 65 \<le> n \<and> n \<le> 90 then char_of (n + 32) else c)"

definition toLowerCase :: "string \<Rightarrow> string" where
  "toLowerCase s = map lowerChar s"

fun includesStr :: "string \<Rightarrow> string \<Rightarrow> bool" where
  "includesStr [] t = (t = [])"
| "includesStr (c # cs) t = (prefix t (c # cs) \<or> includesStr cs t)"

definition findEventsByContent ::
  "(event \<Rightarrow> string) \<Rightarrow> event list \<Rightarrow> string \<Rightarrow> event list" where
  "findEventsByContent stringify events searchTerm =
     filter (\<lambda>event. includesStr (toLowerCase (stringify event)) (toLowerCase searchTerm))
       events"

record stats =
  totalEvents :: nat
  duration :: rat
  startTime :: rat
  endTime :: rat
  eventTypeCounts :: "nat \<rightharpoonup> nat"
  eventTypes :: "(nat \<times> string) list"

fun countTypes :: "event list \<Rightarrow> (nat \<rightharpoonup> nat) \<Rightarrow> (nat \<rightharpoonup> nat)" where
  "countTypes [] m = m"
| "countTypes (e # es) m =
     countTypes es (m(type e \<mapsto> (case m (type e) of None \<Rightarrow> 0 | Some c \<Rightarrow> c) + 1))"

definition analyzeRecording :: "event list \<Rightarrow> stats option" where
  "analyzeRecording events =
     (if events = [] then None
      else
        let firstTimestamp = timestamp (hd events);
            lastTimestamp = timestamp (last events)
        in Some \<lparr>totalEvents = length events,
                 duration = (lastTimestamp - firstTimestamp) / 1000,
                 startTime = firstTimestamp,
                 endTime = lastTimestamp,
                 eventTypeCounts = countTypes events Map.empty,
                 eventTypes = [(1, ''DomContentLoaded''), (2, ''FullSnapshot''),
                   (3, ''IncrementalSnapshot''), (4, ''Meta''), (5, ''Custom''),
                   (6, ''Plugin'')]\<rparr>)"

subsection \<open>trimRecordingFallback\<close>

text \<open>The full snapshots with their positions, and a loop that overwrites its result
  at every match (so the last match in scan order wins).\<close>

definition fullSnapshotsOf :: "event list \<Rightarrow> (event \<times> nat) list" where
  "fullSnapshotsOf events =
     filter (\<lambda>(e, i). type e = 2) (zip events [0..<length events])"

fun lastMatching :: "('a \<Rightarrow> bool) \<Rightarrow> 'a list \<Rightarrow> 'a option \<Rightarrow> 'a option" where
  "lastMatching P [] acc = acc"
| "lastMatching P (x # xs) acc = lastMatching P xs (if P x then Some x else acc)"

definition selectBase :: "event list \<Rightarrow> rat \<Rightarrow> error + (event \<times> nat)" where
  "selectBase events startMs =
     (let fullSnapshots = fullSnapshotsOf events in
      if fullSnapshots = [] then Inl NoFullSnapshot
      else
        let threshold = 30000 in
        case lastMatching
               (\<lambda>(snapshot, index). timestamp snapshot \<le> startMs \<and>
                  timestamp snapshot \<ge> startMs - threshold) fullSnapshots None of
          Some b \<Rightarrow> Inr b
        | None \<Rightarrow>
            (case lastMatching (\<lambda>(snapshot, index). timestamp snapshot \<le> startMs)
                    fullSnapshots None of
               Some b \<Rightarrow> Inr b
             | None \<Rightarrow> Inr (hd fullSnapshots)))"

text \<open>\<open>event.type === 3 && event.data && event.data.source === 0\<close>\<close>

definition isMutation :: "event \<Rightarrow> bool" where
  "isMutation event =
     (type event = 3 \<and> truthy (data event) \<and> getProp (data event) ''source'' = Some (JNum 0))"

text \<open>The walk from the position after the base snapshot: \<open>break\<close> past the end time,
  \<open>continue\<close> on full snapshots, mutations only before the start time.\<close>

fun collectEvents :: "rat \<Rightarrow> rat \<Rightarrow> event list \<Rightarrow> event list" where
  "collectEvents startMs endMs [] = []"
| "collectEvents startMs endMs (event # rest) =
     (if timestamp event > endMs then []
      else if type event = 2 then collectEvents startMs endMs rest
      else if timestamp event < startMs then
        (if isMutation event then event # collectEvents startMs endMs rest
         else collectEvents startMs endMs rest)
      else event # collectEvents startMs endMs rest)"

definition minimalEvent :: "rat \<Rightarrow> event" where
  "minimalEvent t =
     \<lparr>type = 3,
      data = JObj [(''source'', JNum 0), (''texts'', JArr []), (''attributes'', JArr []),
                   (''removes'', JArr []), (''adds'', JArr [])],
      timestamp = t, tabId = None\<rparr>"

text \<open>
  The callback of \<open>newEvents.map\<close>. Reading \<open>event.data.source\<close> throws a TypeError when
  \<open>data\<close> is null. JavaScript divides by a zero \<open>timeShift\<close> without throwing and
  yields Infinity or NaN, which a rational timestamp cannot hold: the model stops there
  with \<open>NonFiniteTimestamp\<close> instead of inventing a number.
\<close>

definition shiftEvent :: "rat \<Rightarrow> rat \<Rightarrow> rat \<Rightarrow> event \<Rightarrow> error + event" where
  "shiftEvent startMs timeShift baseTime event =
     (let relativeTime = timestamp event - baseTime in
      if timestamp event < startMs \<and> type event = 3 then
        (if data event = JNull then Inl TypeError
         else if getProp (data event) ''source'' = Some (JNum 0) then
           (if timeShift = 0 then Inl NonFiniteTimestamp
            else
              let compressionRatio = min (relativeTime / timeShift) 1
              in Inr (event\<lparr>timestamp := compressionRatio * 100\<rparr>))
         else Inr (event\<lparr>timestamp := timestamp event - startMs + 100\<rparr>))
      else Inr (event\<lparr>timestamp := timestamp event - startMs + 100\<rparr>))"

fun shiftAll :: "(event \<Rightarrow> error + event) \<Rightarrow> event list \<Rightarrow> error + event list" where
  "shiftAll f [] = Inr []"
| "shiftAll f (e # es) =
     (case f e of
        Inl err \<Rightarrow> Inl err
      | Inr e' \<Rightarrow> (case shiftAll f es of Inl err \<Rightarrow> Inl err | Inr es' \<Rightarrow> Inr (e' # es')))"

text \<open>The copy of the log's first Meta event, placed one millisecond after the base.\<close>

definition metaCopy :: "event list \<Rightarrow> event \<Rightarrow> event list" where
  "metaCopy events baseSnapshot =
     (case find (\<lambda>e. type e = 4) events of
        None \<Rightarrow> []
      | Some metaEvent \<Rightarrow> [metaEvent\<lparr>timestamp := timestamp baseSnapshot + 1\<rparr>])"

definition fallbackEvents :: "event list \<Rightarrow> event \<Rightarrow> nat \<Rightarrow> rat \<Rightarrow> rat \<Rightarrow> event list" where
  "fallbackEvents events baseSnapshot baseSnapshotIndex startMs endMs =
     (let newEvents = baseSnapshot # metaCopy events baseSnapshot @
            collectEvents startMs endMs (drop (baseSnapshotIndex + 1) events);
          ordered = sort_key timestamp newEvents
      in if length ordered = 1
         then ordered @ [minimalEvent (timestamp baseSnapshot + 10)]
         else ordered)"

definition trimRecordingFallback :: "event list \<Rightarrow> rat \<Rightarrow> rat \<Rightarrow> error + event list" where
  "trimRecordingFallback events startMs endMs =
     (case selectBase events startMs of
        Inl err \<Rightarrow> Inl err
      | Inr (baseSnapshot, baseSnapshotIndex) \<Rightarrow>
          let newEvents = fallbackEvents events baseSnapshot baseSnapshotIndex startMs endMs;
              timeShift = startMs - timestamp baseSnapshot;
              baseTime = timestamp (hd newEvents)
          in case shiftAll (shiftEvent startMs timeShift baseTime) newEvents of
               Inl err \<Rightarrow> Inl err
             | Inr shiftedEvents \<Rightarrow>
                 if length shiftedEvents < 2 then Inl (TooFewEvents (length shiftedEvents))
                 else Inr shiftedEvents)"

subsection \<open>createTrueSyntheticSnapshot and trimRecording\<close>

text \<open>
  The replay in a hidden container and the DOM capture are the work of the rrweb
  Replayer and of rrweb-snapshot. They enter as the parameter \<open>replay\<close>: given the log
  and the relative target time it yields the captured DOM node or the error that was
  thrown on the way (no iframe, timeout, ...). What the function itself does with the
  capture follows the code.
\<close>

definition firstTabId :: "event list \<Rightarrow> string option" where
  "firstTabId events =
     (case find (\<lambda>e. case tabId e of None \<Rightarrow> False | Some s \<Rightarrow> s \<noteq> []) events of
        None \<Rightarrow> None
      | Some e \<Rightarrow> tabId e)"

definition createTrueSyntheticSnapshot ::
  "(event list \<Rightarrow> rat \<Rightarrow> error + json) \<Rightarrow> event list \<Rightarrow> rat \<Rightarrow> error + event" where
  "createTrueSyntheticSnapshot replay events targetTimestamp =
     (if events = [] then Inl TypeError
      else
        let startTime = timestamp (hd events);
            relativeTarget = targetTimestamp - startTime
        in case replay events relativeTarget of
             Inl err \<Rightarrow> Inl err
           | Inr domSnapshot \<Rightarrow>
               if \<not> truthy domSnapshot then Inl SnapshotReturnedNull
               else Inr \<lparr>type = 2,
                         data = JObj [(''node'', domSnapshot),
                                      (''initialOffset'',
                                         JObj [(''left'', JNum 0), (''top'', JNum 0)])],
                         timestamp = targetTimestamp,
                         tabId = firstTabId events\<rparr>)"

text \<open>\<open>originalMeta?.data?.k || dflt\<close>\<close>

definition metaField :: "event option \<Rightarrow> string \<Rightarrow> json \<Rightarrow> json" where
  "metaField originalMeta k dflt =
     (case originalMeta of
        None \<Rightarrow> dflt
      | Some m \<Rightarrow>
          (case getProp (data m) k of
             None \<Rightarrow> dflt
           | Some v \<Rightarrow> if truthy v then v else dflt))"

definition trimMeta :: "string \<Rightarrow> event list \<Rightarrow> event \<Rightarrow> event" where
  "trimMeta href events syntheticSnapshot =
     (let originalMeta = find (\<lambda>e. type e = 4) events
      in \<lparr>type = 4,
          data = JObj [(''href'', metaField originalMeta ''href'' (JStr href)),
                       (''width'', metaField originalMeta ''width'' (JNum 1920)),
                       (''height'', metaField originalMeta ''height'' (JNum 1080))],
          timestamp = 0,
          tabId = tabId syntheticSnapshot\<rparr>)"

text \<open>The part of the \<open>try\<close> block after the snapshot has been obtained.\<close>

definition trimmedEvents ::
  "string \<Rightarrow> event list \<Rightarrow> event \<Rightarrow> rat \<Rightarrow> rat \<Rightarrow> event list" where
  "trimmedEvents href events syntheticSnapshot startMs endMs =
     (let metaEvent = trimMeta href events syntheticSnapshot;
          adjustedSnapshot = syntheticSnapshot\<lparr>timestamp := 1\<rparr>;
          eventsInRange = filter (\<lambda>event. timestamp event > startMs \<and> timestamp event \<le> endMs)
                            events;
          newEvents = [metaEvent, adjustedSnapshot] @
            map (\<lambda>event. event\<lparr>timestamp := timestamp event - startMs + 2\<rparr>) eventsInRange
      in sort_key timestamp newEvents)"

definition closeSnapshot :: "event list \<Rightarrow> rat \<Rightarrow> event option" where
  "closeSnapshot events startMs =
     (let snapshots = filter (\<lambda>e. type e = 2) events
      in find (\<lambda>s. \<bar>timestamp s - startMs\<bar> < 1000) snapshots)"

definition obtainSnapshot ::
  "(event list \<Rightarrow> rat \<Rightarrow> error + json) \<Rightarrow> event list \<Rightarrow> rat \<Rightarrow> error + event" where
  "obtainSnapshot replay events startMs =
     (case closeSnapshot events startMs of
        Some c \<Rightarrow>
          if timestamp c = startMs then Inr c
          else createTrueSyntheticSnapshot replay events startMs
      | None \<Rightarrow> createTrueSyntheticSnapshot replay events startMs)"

definition clampStart :: "event list \<Rightarrow> rat \<Rightarrow> rat" where
  "clampStart events startMs =
     (let recordingStart = timestamp (hd events)
      in if startMs < recordingStart then recordingStart else startMs)"

definition clampEnd :: "event list \<Rightarrow> rat \<Rightarrow> rat" where
  "clampEnd events endMs =
     (let recordingEnd = timestamp (last events)
      in if endMs > recordingEnd then recordingEnd else endMs)"

definition trimRecording ::
  "string \<Rightarrow> (event list \<Rightarrow> rat \<Rightarrow> error + json) \<Rightarrow> event list \<Rightarrow> rat \<Rightarrow> rat
     \<Rightarrow> error + event list" where
  "trimRecording href replay events startMs0 endMs0 =
     (if events = [] then Inl InvalidEventsArray
      else
        let startMs = clampStart events startMs0;
            endMs = clampEnd events endMs0
        in if startMs \<ge> endMs then Inl (InvalidTimeRange startMs endMs)
           else
             (case obtainSnapshot replay events startMs of
                Inr syntheticSnapshot \<Rightarrow>
                  Inr (trimmedEvents href events syntheticSnapshot startMs endMs)
              | Inl err \<Rightarrow> trimRecordingFallback events startMs endMs))"

section \<open>The module over a store of objects and arrays\<close>

text \<open>
  Whether the module writes to the caller's log depends on which object and which array
  each statement touches, so the three functions are written once more over a store.
  An address is a position in the store: objects hold events (the payload is kept as a
  value inside the object, no statement of the module writes into a payload), arrays
  hold addresses of objects. An object literal or a spread copy allocates an object;
  \<open>[]\<close>, \<open>filter\<close> and \<open>map\<close> allocate an array; \<open>push\<close>, \<open>sort\<close> and a property assignment
  write in place.
\<close>

record store =
  objects :: "event list"
  arrays :: "nat list list"

definition newObject :: "event \<Rightarrow> store \<Rightarrow> nat \<times> store" where
  "newObject v st = (length (objects st), st\<lparr>objects := objects st @ [v]\<rparr>)"

definition newArray :: "nat list \<Rightarrow> store \<Rightarrow> nat \<times> store" where
  "newArray refs st = (length (arrays st), st\<lparr>arrays := arrays st @ [refs]\<rparr>)"

definition push :: "nat \<Rightarrow> nat \<Rightarrow> store \<Rightarrow> store" where
  "push a r st = st\<lparr>arrays := (arrays st)[a := arrays st ! a @ [r]]\<rparr>"

definition assign :: "nat \<Rightarrow> (event \<Rightarrow> event) \<Rightarrow> store \<Rightarrow> store" where
  "assign r f st = st\<lparr>objects := (objects st)[r := f (objects st ! r)]\<rparr>"

text \<open>\<open>a.sort((x, y) => x.timestamp - y.timestamp)\<close>, in place and stable.\<close>

definition sortByTimestamp :: "nat \<Rightarrow> store \<Rightarrow> store" where
  "sortByTimestamp a st =
     st\<lparr>arrays := (arrays st)[a := sort_key (\<lambda>r. timestamp (objects st ! r)) (arrays st ! a)]\<rparr>"

text \<open>The log that an array denotes.\<close>

definition logOf :: "store \<Rightarrow> nat \<Rightarrow> event list" where
  "logOf st a = map (\<lambda>r. objects st ! r) (arrays st ! a)"

subsection \<open>cutRecording over the store\<close>

fun closestRef ::
  "store \<Rightarrow> rat \<Rightarrow> nat list \<Rightarrow> nat option \<times> rat option \<Rightarrow> nat option \<times> rat option" where
  "closestRef st cutStartTime [] acc = acc"
| "closestRef st cutStartTime (r # rs) (fullSnapshot, bestDistance) =
     (if type (objects st ! r) = 2 then
        (let distance = \<bar>timestamp (objects st ! r) - cutStartTime\<bar> in
         if (case bestDistance of None \<Rightarrow> True | Some b \<Rightarrow> distance < b)
         then closestRef st cutStartTime rs (Some r, Some distance)
         else closestRef st cutStartTime rs (fullSnapshot, bestDistance))
      else closestRef st cutStartTime rs (fullSnapshot, bestDistance))"

text \<open>The loop over \<open>neededEvents\<close>: a spread copy of every event that is not the chosen
  snapshot is pushed.\<close>

fun pushCopies :: "nat \<Rightarrow> nat \<Rightarrow> nat list \<Rightarrow> store \<Rightarrow> store" where
  "pushCopies newEvents fullSnapshot [] st = st"
| "pushCopies newEvents fullSnapshot (r # rs) st =
     (let event = objects st ! r;
          snapshot = objects st ! fullSnapshot
      in if timestamp event \<noteq> timestamp snapshot \<or> type event \<noteq> 2
         then (let (c, st1) = newObject event st
               in pushCopies newEvents fullSnapshot rs (push newEvents c st1))
         else pushCopies newEvents fullSnapshot rs st)"

definition cutRecordingS ::
  "string \<Rightarrow> nat \<Rightarrow> rat \<Rightarrow> rat \<Rightarrow> rat \<Rightarrow> store \<Rightarrow> (error + nat) \<times> store" where
  "cutRecordingS href events centerTimeSeconds beforeSeconds afterSeconds st =
     (let refs = arrays st ! events in
      if refs = [] then (Inl InvalidEventsArray, st)
      else
        let startTime = timestamp (objects st ! hd refs);
            centerTimestamp = startTime + centerTimeSeconds * 1000;
            cutStartTime = centerTimestamp - beforeSeconds * 1000;
            cutEndTime = centerTimestamp + afterSeconds * 1000
        in case fst (closestRef st cutStartTime refs (None, None)) of
             None \<Rightarrow> (Inl NoFullSnapshot, st)
           | Some fullSnapshot \<Rightarrow>
               let snapshotTime = timestamp (objects st ! fullSnapshot);
                   rangeStart = min snapshotTime cutStartTime;
                   rangeEnd = cutEndTime;
                   (neededEvents, st1) =
                     newArray (filter (\<lambda>r. timestamp (objects st ! r) \<ge> rangeStart \<and>
                                         timestamp (objects st ! r) \<le> rangeEnd) refs) st;
                   (newEvents, st2) = newArray [] st1;
                   (c, st3) = newObject (objects st2 ! fullSnapshot) st2;
                   st4 = push newEvents c st3;
                   st5 = pushCopies newEvents fullSnapshot (arrays st4 ! neededEvents) st4;
                   st6 = (if length (arrays st5 ! newEvents) < 2
                          then (let lastTimestamp =
                                      timestamp (objects st5 ! last (arrays st5 ! newEvents));
                                    (f, st') = newObject (cutFiller href lastTimestamp) st5
                                in push newEvents f st')
                          else st5);
                   st7 = sortByTimestamp newEvents st6
               in (Inr newEvents, st7))"

subsection \<open>trimRecordingFallback over the store\<close>

text \<open>The wrappers \<open>{snapshot, index}\<close> of \<open>fullSnapshots\<close> are local to the function and
  are kept as pairs of an address and a position.\<close>

definition fullSnapshotRefs :: "store \<Rightarrow> nat list \<Rightarrow> (nat \<times> nat) list" where
  "fullSnapshotRefs st refs =
     filter (\<lambda>(r, i). type (objects st ! r) = 2) (zip refs [0..<length refs])"

definition selectBaseS :: "store \<Rightarrow> nat list \<Rightarrow> rat \<Rightarrow> error + (nat \<times> nat)" where
  "selectBaseS st refs startMs =
     (let fullSnapshots = fullSnapshotRefs st refs in
      if fullSnapshots = [] then Inl NoFullSnapshot
      else
        let threshold = 30000 in
        case lastMatching
               (\<lambda>(snapshot, index). timestamp (objects st ! snapshot) \<le> startMs \<and>
                  timestamp (objects st ! snapshot) \<ge> startMs - threshold) fullSnapshots None of
          Some b \<Rightarrow> Inr b
        | None \<Rightarrow>
            (case lastMatching (\<lambda>(snapshot, index). timestamp (objects st ! snapshot) \<le> startMs)
                    fullSnapshots None of
               Some b \<Rightarrow> Inr b
             | None \<Rightarrow> Inr (hd fullSnapshots)))"

text \<open>The walk pushes the events of the log themselves, not copies.\<close>

fun walkS :: "nat \<Rightarrow> rat \<Rightarrow> rat \<Rightarrow> nat list \<Rightarrow> store \<Rightarrow> store" where
  "walkS newEvents startMs endMs [] st = st"
| "walkS newEvents startMs endMs (r # rs) st =
     (let event = objects st ! r in
      if timestamp event > endMs then st
      else if type event = 2 then walkS newEvents startMs endMs rs st
      else if timestamp event < startMs then
        (if isMutation event then walkS newEvents startMs endMs rs (push newEvents r st)
         else walkS newEvents startMs endMs rs st)
      else walkS newEvents startMs endMs rs (push newEvents r st))"

text \<open>\<open>newEvents.map\<close>: one new object for each element; an exception in the callback
  leaves the objects made so far behind.\<close>

fun mapS :: "(event \<Rightarrow> error + event) \<Rightarrow> nat list \<Rightarrow> store \<Rightarrow> (error + nat list) \<times> store" where
  "mapS f [] st = (Inr [], st)"
| "mapS f (r # rs) st =
     (case f (objects st ! r) of
        Inl err \<Rightarrow> (Inl err, st)
      | Inr v \<Rightarrow>
          (let (c, st1) = newObject v st
           in case mapS f rs st1 of
                (Inl err, st2) \<Rightarrow> (Inl err, st2)
              | (Inr cs, st2) \<Rightarrow> (Inr (c # cs), st2)))"

definition trimRecordingFallbackS ::
  "nat \<Rightarrow> rat \<Rightarrow> rat \<Rightarrow> store \<Rightarrow> (error + nat) \<times> store" where
  "trimRecordingFallbackS events startMs endMs st =
     (let refs = arrays st ! events in
      case selectBaseS st refs startMs of
        Inl err \<Rightarrow> (Inl err, st)
      | Inr (baseSnapshot, baseSnapshotIndex) \<Rightarrow>
          let baseTimestamp = timestamp (objects st ! baseSnapshot);
              (newEvents, st1) = newArray [] st;
              (c, st2) = newObject (objects st1 ! baseSnapshot) st1;
              st3 = push newEvents c st2;
              st4 = (case find (\<lambda>r. type (objects st3 ! r) = 4) refs of
                       None \<Rightarrow> st3
                     | Some metaEvent \<Rightarrow>
                         (let (m, st') =
                                newObject ((objects st3 ! metaEvent)\<lparr>timestamp := baseTimestamp + 1\<rparr>) st3
                          in push newEvents m st'));
              st5 = walkS newEvents startMs endMs (drop (baseSnapshotIndex + 1) refs) st4;
              st6 = sortByTimestamp newEvents st5;
              st7 = (if length (arrays st6 ! newEvents) = 1
                     then (let (f, st') = newObject (minimalEvent (baseTimestamp + 10)) st6
                           in push newEvents f st')
                     else st6);
              timeShift = startMs - baseTimestamp;
              baseTime = timestamp (objects st7 ! hd (arrays st7 ! newEvents))
          in case mapS (shiftEvent startMs timeShift baseTime) (arrays st7 ! newEvents) st7 of
               (Inl err, st8) \<Rightarrow> (Inl err, st8)
             | (Inr cs, st8) \<Rightarrow>
                 (let (shiftedEvents, st9) = newArray cs st8
                  in if length cs < 2 then (Inl (TooFewEvents (length cs)), st9)
                     else (Inr shiftedEvents, st9)))"

subsection \<open>The part of trimRecording after the reconstruction, over the store\<close>

fun pushAdjusted :: "nat \<Rightarrow> rat \<Rightarrow> nat list \<Rightarrow> store \<Rightarrow> store" where
  "pushAdjusted newEvents startMs [] st = st"
| "pushAdjusted newEvents startMs (r # rs) st =
     (let event = objects st ! r;
          (adjustedEvent, st1) = newObject (event\<lparr>timestamp := timestamp event - startMs + 2\<rparr>) st
      in pushAdjusted newEvents startMs rs (push newEvents adjustedEvent st1))"

definition trimmedEventsS ::
  "string \<Rightarrow> nat \<Rightarrow> nat \<Rightarrow> rat \<Rightarrow> rat \<Rightarrow> store \<Rightarrow> nat \<times> store" where
  "trimmedEventsS href events syntheticSnapshot startMs endMs st =
     (let refs = arrays st ! events;
          (newEvents, st1) = newArray [] st;
          originalMeta = map_option (\<lambda>r. objects st1 ! r) (find (\<lambda>r. type (objects st1 ! r) = 4) refs);
          (metaEvent, st2) =
            newObject
              \<lparr>type = 4,
               data = JObj [(''href'', metaField originalMeta ''href'' (JStr href)),
                            (''width'', metaField originalMeta ''width'' (JNum 1920)),
                            (''height'', metaField originalMeta ''height'' (JNum 1080))],
               timestamp = 0, tabId = None\<rparr> st1;
          st3 = (if tabId (objects st2 ! syntheticSnapshot) \<noteq> None
                 then assign metaEvent (\<lambda>m. m\<lparr>tabId := tabId (objects st2 ! syntheticSnapshot)\<rparr>) st2
                 else st2);
          st4 = push newEvents metaEvent st3;
          (adjustedSnapshot, st5) = newObject ((objects st4 ! syntheticSnapshot)\<lparr>timestamp := 1\<rparr>) st4;
          st6 = push newEvents adjustedSnapshot st5;
          (eventsInRange, st7) =
            newArray (filter (\<lambda>r. timestamp (objects st6 ! r) > startMs \<and>
                                timestamp (objects st6 ! r) \<le> endMs) refs) st6;
          st8 = pushAdjusted newEvents startMs (arrays st7 ! eventsInRange) st7;
          st9 = sortByTimestamp newEvents st8
      in (newEvents, st9))"

subsection \<open>Sample events\<close>

text \<open>Small events for the concrete logs on which the theorems below are run.\<close>

definition ev :: "nat \<Rightarrow> rat \<Rightarrow> event" where
  "ev ty t = \<lparr>type = ty, data = JNull, timestamp = t, tabId = None\<rparr>"

definition mutation :: "rat \<Rightarrow> event" where
  "mutation t = \<lparr>type = 3, data = JObj [(''source'', JNum 0)], timestamp = t, tabId = None\<rparr>"

text \<open>Two replay environments: one where the replay cannot run, one that captures a
  document.\<close>

definition failingReplay :: "event list \<Rightarrow> rat \<Rightarrow> error + json" where
  "failingReplay events relativeTarget = Inl (ReplayError ''Could not find replay iframe'')"

definition capturingReplay :: "event list \<Rightarrow> rat \<Rightarrow> error + json" where
  "capturingReplay events relativeTarget = Inr (JObj [(''type'', JNum 0), (''id'', JNum 1)])"

definition metaAt :: "rat \<Rightarrow> event" where
  "metaAt t =
     \<lparr>type = 4,
      data = JObj [(''href'', JStr ''http://example.org/''), (''width'', JNum 1280),
                   (''height'', JNum 720)],
      timestamp = t, tabId = None\<rparr>"

subsection \<open>A serializer for the sample logs\<close>

text \<open>
  \<open>JSON.stringify\<close> on an event, for running the search on concrete logs: the properties in
  the order \<open>type\<close>, \<open>data\<close>, \<open>timestamp\<close>, \<open>tabId\<close>, no white space, quotes and backslashes
  escaped. It prints integers as JavaScript does; the sample logs hold no other numbers
  (a fraction would be printed as numerator/denominator, which JavaScript does not do).
\<close>

fun showNat :: "nat \<Rightarrow> string" where
  "showNat n = (if n < 10 then [char_of (48 + n)] else showNat (n div 10) @ [char_of (48 + n mod 10)])"

definition showNumber :: "rat \<Rightarrow> string" where
  "showNumber r =
     (let (p, q) = quotient_of r;
          whole = (if p < 0 then ''-'' @ showNat (nat (- p)) else showNat (nat p))
      in if q = 1 then whole else whole @ ''/'' @ showNat (nat q))"

definition quoteStr :: "string \<Rightarrow> string" where
  "quoteStr s =
     CHR 0x22 # concat (map (\<lambda>c. if c = CHR 0x22 \<or> c = CHR 0x5C then [CHR 0x5C, c] else [c]) s)
       @ [CHR 0x22]"

fun commaSep :: "string list \<Rightarrow> string" where
  "commaSep [] = []"
| "commaSep [x] = x"
| "commaSep (x # y # ys) = x @ '','' @ commaSep (y # ys)"

fun stringifyJson :: "json \<Rightarrow> string" where
  "stringifyJson JNull = ''null''"
| "stringifyJson (JBool b) = (if b then ''true'' else ''false'')"
| "stringifyJson (JNum r) = showNumber r"
| "stringifyJson (JStr s) = quoteStr s"
| "stringifyJson (JArr xs) = ''['' @ commaSep (map stringifyJson xs) @ '']''"
| "stringifyJson (JObj kvs) =
     ''{'' @ commaSep (map (\<lambda>(k, v). quoteStr k @ '':'' @ stringifyJson v) kvs) @ ''}''"

definition stringifyEvent :: "event \<Rightarrow> string" where
  "stringifyEvent e =
     ''{'' @ commaSep
       ([quoteStr ''type'' @ '':'' @ showNat (type e),
         quoteStr ''data'' @ '':'' @ stringifyJson (data e),
         quoteStr ''timestamp'' @ '':'' @ showNumber (timestamp e)]
        @ (case tabId e of None \<Rightarrow> [] | Some t \<Rightarrow> [quoteStr ''tabId'' @ '':'' @ quoteStr t]))
     @ ''}''"

subsection \<open>The log invariants of the specification\<close>

text \<open>
  A valid log: not empty, ordered by non-decreasing timestamp, at least two events, at
  least one full keyframe (type 2). \<open>outputInvariants\<close> is the property that the
  specification states for the logs produced by cut and trim: non-decreasing
  timestamps, at least two events, a full keyframe first.
\<close>

definition validLog :: "event list \<Rightarrow> bool" where
  "validLog events \<longleftrightarrow>
     events \<noteq> [] \<and> sorted (map timestamp events) \<and> 2 \<le> length events \<and>
     (\<exists>e\<in>set events. type e = 2)"

definition outputInvariants :: "event list \<Rightarrow> bool" where
  "outputInvariants out \<longleftrightarrow>
     sorted (map timestamp out) \<and> 2 \<le> length out \<and> out \<noteq> [] \<and> type (hd out) = 2"

text \<open>The round trip of the specification: the statistics of a derived log compared
  with those of the log it was derived from.\<close>

definition noLongerThan :: "event list \<Rightarrow> event list \<Rightarrow> bool" where
  "noLongerThan out events \<longleftrightarrow>
     (case (analyzeRecording out, analyzeRecording events) of
        (Some st, Some original) \<Rightarrow> duration st \<le> duration original
      | _ \<Rightarrow> False)"

definition noMoreEventsThan :: "event list \<Rightarrow> event list \<Rightarrow> bool" where
  "noMoreEventsThan out events \<longleftrightarrow>
     (case (analyzeRecording out, analyzeRecording events) of
        (Some st, Some original) \<Rightarrow> totalEvents st \<le> totalEvents original
      | _ \<Rightarrow> False)"

text \<open>The base keyframe in the words of the specification: a full keyframe of the log at
  or before the start time that no other such keyframe is closer to the start time than.\<close>

definition closestKeyframeBefore :: "event list \<Rightarrow> rat \<Rightarrow> event \<Rightarrow> bool" where
  "closestKeyframeBefore events startMs b \<longleftrightarrow>
     b \<in> set events \<and> type b = 2 \<and> timestamp b \<le> startMs \<and>
     (\<forall>k\<in>set events. type k = 2 \<and> timestamp k \<le> startMs \<longrightarrow> timestamp k \<le> timestamp b)"

subsection \<open>What a call leaves untouched\<close>

text \<open>
  \<open>keeps st0 st\<close>: every object and every array of \<open>st0\<close> is in \<open>st\<close> at the same address
  with the same content; \<open>st\<close> may hold more. An array is \<open>owned\<close> when it was allocated
  after \<open>st0\<close>, and \<open>freshArray\<close> when moreover it holds only objects allocated after
  \<open>st0\<close>.
\<close>

definition keeps :: "store \<Rightarrow> store \<Rightarrow> bool" where
  "keeps st0 st \<longleftrightarrow> prefix (objects st0) (objects st) \<and> prefix (arrays st0) (arrays st)"

definition owned :: "store \<Rightarrow> store \<Rightarrow> nat \<Rightarrow> bool" where
  "owned st0 st a \<longleftrightarrow> keeps st0 st \<and> length (arrays st0) \<le> a \<and> a < length (arrays st)"

definition freshArray :: "store \<Rightarrow> store \<Rightarrow> nat \<Rightarrow> bool" where
  "freshArray st0 st a \<longleftrightarrow>
     owned st0 st a \<and> (\<forall>r\<in>set (arrays st ! a). length (objects st0) \<le> r)"

text \<open>A store in which the array at \<open>events\<close> exists and holds addresses of objects.\<close>

definition validInput :: "store \<Rightarrow> nat \<Rightarrow> bool" where
  "validInput st events \<longleftrightarrow>
     events < length (arrays st) \<and> (\<forall>r\<in>set (arrays st ! events). r < length (objects st))"

definition sampleStore :: store where
  "sampleStore =
     \<lparr>objects = [metaAt 1000, ev 2 1000, mutation 1500, ev 3 2000, ev 3 3000],
      arrays = [[0, 1, 2, 3, 4]]\<rparr>"

section \<open>The anchor of cutRecording\<close>

lemma closestSnapshot_None:
  "(fs = None \<longleftrightarrow> bd = None) \<Longrightarrow>
   fst (closestSnapshot c es (fs, bd)) = None \<longleftrightarrow> (fs = None \<and> (\<forall>e\<in>set es. type e \<noteq> 2))"
  by (induction es arbitrary: fs bd) (auto simp: Let_def split: if_splits option.splits)

lemma closestSnapshot_Some:
  "fst (closestSnapshot c es (fs, bd)) = Some k \<Longrightarrow>
   (\<forall>f. fs = Some f \<longrightarrow> bd = Some \<bar>timestamp f - c\<bar>) \<Longrightarrow> (fs = None \<longrightarrow> bd = None) \<Longrightarrow>
   (fs = Some k \<and> (\<forall>e\<in>set es. type e = 2 \<longrightarrow> \<bar>timestamp k - c\<bar> \<le> \<bar>timestamp e - c\<bar>))
   \<or> (\<exists>pre post. es = pre @ k # post \<and> type k = 2
        \<and> (\<forall>b. bd = Some b \<longrightarrow> \<bar>timestamp k - c\<bar> < b)
        \<and> (\<forall>e\<in>set pre. type e = 2 \<longrightarrow> \<bar>timestamp k - c\<bar> < \<bar>timestamp e - c\<bar>)
        \<and> (\<forall>e\<in>set post. type e = 2 \<longrightarrow> \<bar>timestamp k - c\<bar> \<le> \<bar>timestamp e - c\<bar>))"
proof (induction es arbitrary: fs bd)
  case Nil
  then show ?case by simp
next
  case (Cons e es)
  let ?d = "\<lambda>x. \<bar>timestamp x - c\<bar>"
  show ?case
  proof (cases "type e = 2 \<and> (case bd of None \<Rightarrow> True | Some b \<Rightarrow> ?d e < b)")
    case True
    then have run: "fst (closestSnapshot c es (Some e, Some (?d e))) = Some k"
      using Cons.prems(1) by (simp add: Let_def)
    from Cons.IH[OF run] consider
      (keep) "e = k" "\<forall>x\<in>set es. type x = 2 \<longrightarrow> ?d k \<le> ?d x"
      | (later) pre post where "es = pre @ k # post" "type k = 2" "?d k < ?d e"
          "\<forall>x\<in>set pre. type x = 2 \<longrightarrow> ?d k < ?d x" "\<forall>x\<in>set post. type x = 2 \<longrightarrow> ?d k \<le> ?d x"
      by auto
    then show ?thesis
    proof cases
      case keep
      have "e # es = [] @ k # es" using keep by simp
      moreover have "type k = 2" using True keep by simp
      moreover have "\<forall>b. bd = Some b \<longrightarrow> ?d k < b" using True keep by (auto split: option.splits)
      ultimately show ?thesis using keep(2) by fastforce
    next
      case later
      have "e # es = (e # pre) @ k # post" using later by simp
      moreover have "\<forall>b. bd = Some b \<longrightarrow> ?d k < b" using True later(3) by (auto split: option.splits)
      moreover have "\<forall>x\<in>set (e # pre). type x = 2 \<longrightarrow> ?d k < ?d x" using later by simp
      ultimately show ?thesis using later(2,5) by blast
    qed
  next
    case False
    then have run: "fst (closestSnapshot c es (fs, bd)) = Some k"
      using Cons.prems(1) by (auto simp: Let_def split: if_splits)
    have far: "type e = 2 \<Longrightarrow> \<exists>b. bd = Some b \<and> b \<le> ?d e"
      using False by (auto split: option.splits)
    from Cons.IH[OF run Cons.prems(2,3)] consider
      (keep) "fs = Some k" "\<forall>x\<in>set es. type x = 2 \<longrightarrow> ?d k \<le> ?d x"
      | (later) pre post where "es = pre @ k # post" "type k = 2" "\<forall>b. bd = Some b \<longrightarrow> ?d k < b"
          "\<forall>x\<in>set pre. type x = 2 \<longrightarrow> ?d k < ?d x" "\<forall>x\<in>set post. type x = 2 \<longrightarrow> ?d k \<le> ?d x"
      by auto
    then show ?thesis
    proof cases
      case keep
      have "type e = 2 \<Longrightarrow> ?d k \<le> ?d e" using far keep(1) Cons.prems(2) by auto
      then show ?thesis using keep by auto
    next
      case later
      have "e # es = (e # pre) @ k # post" using later by simp
      moreover have "\<forall>x\<in>set (e # pre). type x = 2 \<longrightarrow> ?d k < ?d x"
        using later(3,4) far by fastforce
      ultimately show ?thesis using later(2,3,5) by blast
    qed
  qed
qed

lemma closestSnapshot_first_min:
  assumes "fst (closestSnapshot c es (None, None)) = Some k"
  shows "\<exists>pre post. es = pre @ k # post \<and> type k = 2
        \<and> (\<forall>e\<in>set pre. type e = 2 \<longrightarrow> \<bar>timestamp k - c\<bar> < \<bar>timestamp e - c\<bar>)
        \<and> (\<forall>e\<in>set post. type e = 2 \<longrightarrow> \<bar>timestamp k - c\<bar> \<le> \<bar>timestamp e - c\<bar>)"
  using closestSnapshot_Some[OF assms] by auto

lemma closestSnapshot_min:
  assumes "fst (closestSnapshot c es (None, None)) = Some k" "e \<in> set es" "type e = 2"
  shows "\<bar>timestamp k - c\<bar> \<le> \<bar>timestamp e - c\<bar>"
proof -
  obtain pre post where d: "es = pre @ k # post"
    and pre: "\<forall>e\<in>set pre. type e = 2 \<longrightarrow> \<bar>timestamp k - c\<bar> < \<bar>timestamp e - c\<bar>"
    and post: "\<forall>e\<in>set post. type e = 2 \<longrightarrow> \<bar>timestamp k - c\<bar> \<le> \<bar>timestamp e - c\<bar>"
    using closestSnapshot_first_min[OF assms(1)] by blast
  from assms(2) d have "e \<in> set pre \<or> e = k \<or> e \<in> set post" by auto
  then show ?thesis using pre post assms(3) by fastforce
qed

lemma cutEvents_contains: "k \<in> set (cutEvents href events k c1 c2)"
  by (simp add: cutEvents_def Let_def)

text \<open>
  Claim C3. For a non-empty log, \<open>cutRecording\<close> anchors on the first full snapshot (type 2)
  in scan order whose timestamp is nearest to
  \<open>cutStart = firstEvent.timestamp + centerSeconds * 1000 - beforeSeconds * 1000\<close>: every
  full snapshot before it in the log is strictly farther from the cut start and every one
  after it is at least as far. The anchor is part of the output. A log without a full
  snapshot makes it throw "No full snapshot found in recording". In a log that starts at
  1000 and has full snapshots at 1000 and 11000 only, \<open>cutRecording(log, 10, 2, 2)\<close> anchors
  on one at 11000.
\<close>

theorem cutRecording_anchor:
  assumes "events \<noteq> []"
  shows
   "((\<forall>e\<in>set events. type e \<noteq> 2) \<longrightarrow>
        cutRecording href events center before after = Inl NoFullSnapshot)
    \<and> ((\<exists>e\<in>set events. type e = 2) \<longrightarrow>
        (let c = timestamp (hd events) + center * 1000 - before * 1000 in
         \<exists>pre k post. events = pre @ k # post \<and> type k = 2
           \<and> (\<forall>e\<in>set pre. type e = 2 \<longrightarrow> \<bar>timestamp k - c\<bar> < \<bar>timestamp e - c\<bar>)
           \<and> (\<forall>e\<in>set post. type e = 2 \<longrightarrow> \<bar>timestamp k - c\<bar> \<le> \<bar>timestamp e - c\<bar>)
           \<and> cutRecording href events center before after =
                 Inr (cutEvents href events k c (cutEnd events center after))
           \<and> k \<in> set (cutEvents href events k c (cutEnd events center after))))
    \<and> (timestamp (hd events) = 1000
         \<and> (\<forall>e\<in>set events. type e = 2 \<longrightarrow> timestamp e = 1000 \<or> timestamp e = 11000)
         \<and> (\<exists>e\<in>set events. type e = 2 \<and> timestamp e = 11000) \<longrightarrow>
        (\<exists>k\<in>set events. type k = 2 \<and> timestamp k = 11000
           \<and> cutRecording href events 10 2 2 = Inr (cutEvents href events k 9000 13000)))"
proof (intro conjI impI)
  assume "\<forall>e\<in>set events. type e \<noteq> 2"
  then have "fst (closestSnapshot (cutStart events center before) events (None, None)) = None"
    by (simp add: closestSnapshot_None)
  then show "cutRecording href events center before after = Inl NoFullSnapshot"
    using assms by (simp add: cutRecording_def Let_def)
next
  assume kf: "\<exists>e\<in>set events. type e = 2"
  define c where "c = timestamp (hd events) + center * 1000 - before * 1000"
  have c: "cutStart events center before = c"
    by (simp add: cutStart_def c_def Let_def)
  from kf have "fst (closestSnapshot c events (None, None)) \<noteq> None"
    by (simp add: closestSnapshot_None)
  then obtain k where k: "fst (closestSnapshot c events (None, None)) = Some k" by blast
  have "cutRecording href events center before after =
          Inr (cutEvents href events k c (cutEnd events center after))"
    using assms k c by (simp add: cutRecording_def Let_def)
  then show "let c = timestamp (hd events) + center * 1000 - before * 1000 in
         \<exists>pre k post. events = pre @ k # post \<and> type k = 2
           \<and> (\<forall>e\<in>set pre. type e = 2 \<longrightarrow> \<bar>timestamp k - c\<bar> < \<bar>timestamp e - c\<bar>)
           \<and> (\<forall>e\<in>set post. type e = 2 \<longrightarrow> \<bar>timestamp k - c\<bar> \<le> \<bar>timestamp e - c\<bar>)
           \<and> cutRecording href events center before after =
                 Inr (cutEvents href events k c (cutEnd events center after))
           \<and> k \<in> set (cutEvents href events k c (cutEnd events center after))"
    using closestSnapshot_first_min[OF k] cutEvents_contains
    unfolding Let_def c_def[symmetric] by blast
next
  assume h: "timestamp (hd events) = 1000
         \<and> (\<forall>e\<in>set events. type e = 2 \<longrightarrow> timestamp e = 1000 \<or> timestamp e = 11000)
         \<and> (\<exists>e\<in>set events. type e = 2 \<and> timestamp e = 11000)"
  have c: "cutStart events 10 2 = 9000" and c': "cutEnd events 10 2 = 13000"
    using h by (simp_all add: cutStart_def cutEnd_def Let_def)
  from h obtain e where e: "e \<in> set events" "type e = 2" "timestamp e = 11000" by blast
  then have "fst (closestSnapshot 9000 events (None, None)) \<noteq> None"
    by (auto simp: closestSnapshot_None)
  then obtain k where k: "fst (closestSnapshot 9000 events (None, None)) = Some k" by blast
  obtain pre post where d: "events = pre @ k # post" "type k = 2"
    using closestSnapshot_first_min[OF k] by blast
  have "\<bar>timestamp k - 9000\<bar> \<le> \<bar>timestamp e - 9000\<bar>"
    using closestSnapshot_min[OF k e(1,2)] .
  moreover have "timestamp k = 1000 \<or> timestamp k = 11000" using h d by auto
  ultimately have "timestamp k = 11000" using e(3) by auto
  moreover have "cutRecording href events 10 2 2 = Inr (cutEvents href events k 9000 13000)"
    using assms k c c' by (simp add: cutRecording_def Let_def)
  moreover have "k \<in> set events" using d by simp
  ultimately show "\<exists>k\<in>set events. type k = 2 \<and> timestamp k = 11000
           \<and> cutRecording href events 10 2 2 = Inr (cutEvents href events k 9000 13000)"
    using d(2) by blast
qed

theorem cutRecording_anchor_witness:
  "cutRecording ''http://localhost/'' [ev 4 1000, ev 3 2000] 10 2 2 = Inl NoFullSnapshot
   \<and> (\<exists>k\<in>set [ev 2 1000, ev 3 5000, ev 2 11000, ev 3 21000]. type k = 2 \<and> timestamp k = 11000 \<and>
        cutRecording ''http://localhost/'' [ev 2 1000, ev 3 5000, ev 2 11000, ev 3 21000] 10 2 2
          = Inr (cutEvents ''http://localhost/'' [ev 2 1000, ev 3 5000, ev 2 11000, ev 3 21000] k 9000 13000))"
  using cutRecording_anchor[of "[ev 4 1000, ev 3 2000]" "''http://localhost/''" 10 2 2]
    cutRecording_anchor[of "[ev 2 1000, ev 3 5000, ev 2 11000, ev 3 21000]" "''http://localhost/''" 10 2 2]
  by (simp add: ev_def)

section \<open>Facts about the fallback trimmer\<close>

subsection \<open>Errors of the shifting pass\<close>

lemma shiftAll_Inl: "shiftAll f es = Inl err \<Longrightarrow> \<exists>e\<in>set es. f e = Inl err"
  by (induction es) (auto split: sum.splits)

lemma shiftAll_Inr: "shiftAll f es = Inr out \<Longrightarrow> length out = length es \<and> (\<forall>i<length es. f (es ! i) = Inr (out ! i))"
proof (induction es arbitrary: out)
  case Nil
  then show ?case by simp
next
  case (Cons e es)
  then show ?case by (auto split: sum.splits simp: nth_Cons split: nat.splits)
qed

lemma shiftAll_total: "\<forall>e\<in>set es. \<exists>e'. f e = Inr e' \<Longrightarrow> \<exists>out. shiftAll f es = Inr out"
  by (induction es) (fastforce split: sum.splits)+

lemma shiftEvent_error:
  "shiftEvent s ts bt e = Inl err \<Longrightarrow> err = TypeError \<or> err = NonFiniteTimestamp"
  by (auto simp: shiftEvent_def Let_def split: if_splits)

lemma selectBase_error: "selectBase events s = Inl err \<Longrightarrow> err = NoFullSnapshot"
  by (auto simp: selectBase_def Let_def split: if_splits option.splits)

lemma trimRecordingFallback_error:
  "trimRecordingFallback events s e = Inl err \<Longrightarrow>
     err = NoFullSnapshot \<or> err = TypeError \<or> err = NonFiniteTimestamp \<or> (\<exists>n. err = TooFewEvents n)"
  by (auto simp: trimRecordingFallback_def Let_def split: sum.splits prod.splits if_splits
       dest!: selectBase_error shiftAll_Inl shiftEvent_error)


subsection \<open>Choice of the base snapshot\<close>

lemma in_fullSnapshotsOf:
  "(e, i) \<in> set (fullSnapshotsOf events) \<longleftrightarrow> i < length events \<and> events ! i = e \<and> type e = 2"
  by (auto simp: fullSnapshotsOf_def in_set_zip)

lemma fullSnapshotsOf_empty: "fullSnapshotsOf events = [] \<longleftrightarrow> (\<forall>e\<in>set events. type e \<noteq> 2)"
proof
  assume "fullSnapshotsOf events = []"
  then have "\<And>e i. (e, i) \<notin> set (fullSnapshotsOf events)" by simp
  then show "\<forall>e\<in>set events. type e \<noteq> 2"
    unfolding in_fullSnapshotsOf by (metis in_set_conv_nth)
next
  assume a: "\<forall>e\<in>set events. type e \<noteq> 2"
  show "fullSnapshotsOf events = []"
  proof (cases "fullSnapshotsOf events")
    case Nil
    then show ?thesis .
  next
    case (Cons p ps)
    obtain e i where p: "p = (e, i)" by (cases p)
    have "(e, i) \<in> set (fullSnapshotsOf events)" using Cons p by simp
    then show ?thesis using a unfolding in_fullSnapshotsOf by (metis nth_mem)
  qed
qed

lemma lastMatching_filter:
  "lastMatching P xs acc = (if filter P xs = [] then acc else Some (last (filter P xs)))"
  by (induction xs arbitrary: acc) auto



lemma sorted_le_last: "sorted (xs :: rat list) \<Longrightarrow> x \<in> set xs \<Longrightarrow> x \<le> last xs"
  by (induction xs) auto



lemma selectBase_cases:
  "selectBase events s =
     (let kfs = fullSnapshotsOf events;
          w = filter (\<lambda>(snapshot, index). timestamp snapshot \<le> s \<and> timestamp snapshot \<ge> s - 30000) kfs;
          b = filter (\<lambda>(snapshot, index). timestamp snapshot \<le> s) kfs
      in if kfs = [] then Inl NoFullSnapshot
         else if w \<noteq> [] then Inr (last w)
         else if b \<noteq> [] then Inr (last b)
         else Inr (hd kfs))"
  by (simp add: selectBase_def Let_def lastMatching_filter)

lemma selectBase_Inr:
  assumes "selectBase events s = Inr (b, i)"
  shows "i < length events \<and> events ! i = b \<and> type b = 2"
proof -
  let ?kfs = "fullSnapshotsOf events"
  have ne: "?kfs \<noteq> []" using assms by (auto simp: selectBase_cases Let_def)
  define w where "w = filter (\<lambda>(snapshot, index). timestamp snapshot \<le> s \<and> timestamp snapshot \<ge> s - 30000) ?kfs"
  define bf where "bf = filter (\<lambda>(snapshot, index). timestamp snapshot \<le> s) ?kfs"
  have "(w \<noteq> [] \<and> (b, i) = last w) \<or> (bf \<noteq> [] \<and> (b, i) = last bf) \<or> (b, i) = hd ?kfs"
    using assms ne unfolding selectBase_cases Let_def w_def bf_def by (auto split: if_splits)
  moreover have "w \<noteq> [] \<Longrightarrow> last w \<in> set ?kfs"
    using last_in_set[of w] unfolding w_def by auto
  moreover have "bf \<noteq> [] \<Longrightarrow> last bf \<in> set ?kfs"
    using last_in_set[of bf] unfolding bf_def by auto
  moreover have "hd ?kfs \<in> set ?kfs" using ne by simp
  ultimately have "(b, i) \<in> set ?kfs" by auto
  then show ?thesis by (simp add: in_fullSnapshotsOf)
qed

lemma selectBase_total:
  "\<exists>e\<in>set events. type e = 2 \<Longrightarrow> \<exists>b i. selectBase events s = Inr (b, i)"
proof -
  assume "\<exists>e\<in>set events. type e = 2"
  then have "fullSnapshotsOf events \<noteq> []" by (simp add: fullSnapshotsOf_empty)
  then have "\<exists>p. selectBase events s = Inr p" by (simp add: selectBase_cases Let_def)
  then show ?thesis by auto
qed




subsection \<open>The collected events and the result\<close>

lemma collectEvents_member:
  "x \<in> set (collectEvents s e xs) \<Longrightarrow>
     x \<in> set xs \<and> type x \<noteq> 2 \<and> timestamp x \<le> e \<and> (timestamp x < s \<longrightarrow> isMutation x)"
  by (induction xs) (auto split: if_splits)

lemma collectEvents_length: "length (collectEvents s e xs) \<le> length xs"
  by (induction xs) auto

lemma after_base_later:
  assumes "sorted (map timestamp events)" "i < length events" "x \<in> set (drop (Suc i) events)"
  shows "timestamp (events ! i) \<le> timestamp x"
proof -
  obtain j where j: "j < length (drop (Suc i) events)" "drop (Suc i) events ! j = x"
    using assms(3) by (auto simp: in_set_conv_nth)
  then have x: "x = events ! (Suc i + j)" and lt: "Suc i + j < length events" by auto
  have "map timestamp events ! i \<le> map timestamp events ! (Suc i + j)"
    using assms(1) lt by (intro sorted_nth_mono) auto
  then show ?thesis using x lt assms(2) by simp
qed

lemma find_SomeD: "find P xs = Some x \<Longrightarrow> P x \<and> x \<in> set xs"
  by (auto simp: find_Some_iff)

lemma metaCopy_member: "x \<in> set (metaCopy events b) \<Longrightarrow> type x = 4 \<and> timestamp x = timestamp b + 1"
proof (cases "find (\<lambda>e. type e = 4) events")
  case None
  assume "x \<in> set (metaCopy events b)"
  then show ?thesis using None by (simp add: metaCopy_def)
next
  case (Some m)
  assume "x \<in> set (metaCopy events b)"
  then have "x = m\<lparr>timestamp := timestamp b + 1\<rparr>" using Some by (simp add: metaCopy_def)
  moreover have "type m = 4" using find_SomeD[OF Some] by simp
  ultimately show ?thesis by simp
qed

lemma fallbackEvents_unfold:
  "fallbackEvents events b i s e =
     (let ordered = sort_key timestamp (b # metaCopy events b @ collectEvents s e (drop (i + 1) events))
      in if length ordered = 1 then ordered @ [minimalEvent (timestamp b + 10)] else ordered)"
  by (simp add: fallbackEvents_def Let_def)

lemma fallbackEvents_length: "2 \<le> length (fallbackEvents events b i s e)"
proof -
  let ?o = "sort_key timestamp (b # metaCopy events b @ collectEvents s e (drop (i + 1) events))"
  have "length ?o = Suc (length (metaCopy events b @ collectEvents s e (drop (i + 1) events)))"
    by (simp only: length_sort length_Cons)
  then have "length ?o = 1 \<or> 2 \<le> length ?o" by linarith
  moreover have "fallbackEvents events b i s e =
      (if length ?o = 1 then ?o @ [minimalEvent (timestamp b + 10)] else ?o)"
    unfolding fallbackEvents_unfold Let_def ..
  ultimately show ?thesis by (auto simp del: sort_key_simps)
qed

lemma fallbackEvents_member:
  assumes "x \<in> set (fallbackEvents events b i s e)"
  shows "x = b \<or> type x = 4 \<or> x \<in> set (collectEvents s e (drop (i + 1) events))
         \<or> x = minimalEvent (timestamp b + 10)"
proof -
  let ?n = "b # metaCopy events b @ collectEvents s e (drop (i + 1) events)"
  have "x \<in> set (sort_key timestamp ?n) \<or> x = minimalEvent (timestamp b + 10)"
    using assms unfolding fallbackEvents_unfold Let_def by (auto simp del: sort_key_simps split: if_splits)
  then have "x \<in> set ?n \<or> x = minimalEvent (timestamp b + 10)"
    by (simp del: sort_key_simps)
  then show ?thesis using metaCopy_member by auto
qed

lemma fallbackEvents_hd:
  assumes "sorted (map timestamp events)" "i < length events" "events ! i = b"
  shows "hd (fallbackEvents events b i s e) = b"
proof -
  let ?rest = "metaCopy events b @ collectEvents s e (drop (i + 1) events)"
  have "\<forall>x\<in>set ?rest. timestamp b \<le> timestamp x"
  proof
    fix x assume "x \<in> set ?rest"
    then consider "x \<in> set (metaCopy events b)"
      | "x \<in> set (collectEvents s e (drop (i + 1) events))" by auto
    then show "timestamp b \<le> timestamp x"
    proof cases
      case 1
      then show ?thesis using metaCopy_member by fastforce
    next
      case 2
      then have "x \<in> set (drop (Suc i) events)" using collectEvents_member by fastforce
      then show ?thesis using after_base_later[OF assms(1,2)] assms(3) by simp
    qed
  qed
  then have "\<forall>x\<in>set (sort_key timestamp ?rest). timestamp b \<le> timestamp x"
    by (simp del: sort_key_simps)
  then have "sort_key timestamp (b # ?rest) = b # sort_key timestamp ?rest"
    by (simp add: insort_is_Cons)
  moreover have "fallbackEvents events b i s e =
      (if length (sort_key timestamp (b # ?rest)) = 1
       then sort_key timestamp (b # ?rest) @ [minimalEvent (timestamp b + 10)]
       else sort_key timestamp (b # ?rest))"
    unfolding fallbackEvents_unfold Let_def ..
  ultimately have "fallbackEvents events b i s e =
      (if length (b # sort_key timestamp ?rest) = 1
       then (b # sort_key timestamp ?rest) @ [minimalEvent (timestamp b + 10)]
       else b # sort_key timestamp ?rest)" by (simp only:)
  then show ?thesis by (simp del: sort_key_simps)
qed

lemma isMutation_data: "isMutation x \<Longrightarrow> data x \<noteq> JNull"
  by (auto simp: isMutation_def)

lemma shiftEvent_not_mutation:
  "type x \<noteq> 3 \<Longrightarrow> shiftEvent s ts bt x = Inr (x\<lparr>timestamp := timestamp x - s + 100\<rparr>)"
  by (simp add: shiftEvent_def Let_def)

lemma shiftEvent_ok:
  assumes "timestamp x < s \<and> type x = 3 \<longrightarrow> data x \<noteq> JNull \<and> ts \<noteq> 0"
  shows "\<exists>y. shiftEvent s ts bt x = Inr y"
  using assms by (auto simp: shiftEvent_def Let_def)

lemma fallback_shift_ok:
  assumes "sorted (map timestamp events)" "i < length events" "events ! i = b" "type b = 2"
    and "x \<in> set (fallbackEvents events b i s e)"
  shows "\<exists>y. shiftEvent s (s - timestamp b) bt x = Inr y"
proof (rule shiftEvent_ok, rule impI)
  assume pre: "timestamp x < s \<and> type x = 3"
  from fallbackEvents_member[OF assms(5)] pre assms(4) consider
    (c) "x \<in> set (collectEvents s e (drop (i + 1) events))"
    | (m) "x = minimalEvent (timestamp b + 10)" by auto
  then show "data x \<noteq> JNull \<and> s - timestamp b \<noteq> 0"
  proof cases
    case c
    then have "isMutation x" and "x \<in> set (drop (Suc i) events)"
      using collectEvents_member pre by fastforce+
    then show ?thesis
      using after_base_later[OF assms(1,2)] assms(3) pre isMutation_data by fastforce
  next
    case m
    then show ?thesis using pre by (auto simp: minimalEvent_def)
  qed
qed

lemma trimRecordingFallback_succeeds:
  assumes "sorted (map timestamp events)" "selectBase events s = Inr (b, i)"
  shows "\<exists>out. trimRecordingFallback events s e = Inr out \<and> 2 \<le> length out
           \<and> hd out = b\<lparr>timestamp := timestamp b - s + 100\<rparr>
           \<and> length out = length (fallbackEvents events b i s e)"
proof -
  let ?new = "fallbackEvents events b i s e"
  let ?f = "shiftEvent s (s - timestamp b) (timestamp (hd ?new))"
  note bi = selectBase_Inr[OF assms(2)]
  have "\<forall>x\<in>set ?new. \<exists>y. ?f x = Inr y"
    using fallback_shift_ok[OF assms(1)] bi by blast
  then obtain out where out: "shiftAll ?f ?new = Inr out" using shiftAll_total by blast
  have len: "length out = length ?new" and nth: "\<forall>j<length ?new. ?f (?new ! j) = Inr (out ! j)"
    using shiftAll_Inr[OF out] by auto
  have two: "2 \<le> length out" using len fallbackEvents_length by simp
  have ne: "?new \<noteq> []" using fallbackEvents_length[of events b i s e] by auto
  then have "?new ! 0 = hd ?new" by (simp add: hd_conv_nth)
  then have h: "?new ! 0 = b" using fallbackEvents_hd[OF assms(1), of i b s e] bi by simp
  have "0 < length ?new" using ne by simp
  then have "?f (?new ! 0) = Inr (out ! 0)" using nth by blast
  then have "out ! 0 = b\<lparr>timestamp := timestamp b - s + 100\<rparr>"
    using h bi by (simp add: shiftEvent_not_mutation)
  then have "hd out = b\<lparr>timestamp := timestamp b - s + 100\<rparr>"
    using two by (cases out) auto
  moreover have "trimRecordingFallback events s e = Inr out"
    using assms(2) out two by (simp add: trimRecordingFallback_def Let_def)
  ultimately show ?thesis using two len by blast
qed

section \<open>Facts about the reconstruction path of trimRecording\<close>

lemma sort_key_two_front:
  assumes "f a \<le> f b" "\<forall>x\<in>set xs. f b \<le> f x"
  shows "sort_key f (a # b # xs) = a # b # sort_key f xs"
proof -
  have "insort_key f b (sort_key f xs) = b # sort_key f xs"
    using assms(2) by (simp add: insort_is_Cons)
  moreover have "insort_key f a (b # sort_key f xs) = a # b # sort_key f xs"
    using assms by (simp add: insort_is_Cons)
  ultimately show ?thesis by simp
qed

lemma trimmedEvents_layout:
  "trimmedEvents href events snap s e =
     trimMeta href events snap # snap\<lparr>timestamp := 1\<rparr> #
       sort_key timestamp
         (map (\<lambda>event. event\<lparr>timestamp := timestamp event - s + 2\<rparr>)
            (filter (\<lambda>event. timestamp event > s \<and> timestamp event \<le> e) events))"
proof -
  let ?xs = "map (\<lambda>event. event\<lparr>timestamp := timestamp event - s + 2\<rparr>)
            (filter (\<lambda>event. timestamp event > s \<and> timestamp event \<le> e) events)"
  have m: "timestamp (trimMeta href events snap) \<le> timestamp (snap\<lparr>timestamp := 1\<rparr>)"
    by (simp add: trimMeta_def Let_def)
  have r: "\<forall>x\<in>set ?xs. timestamp (snap\<lparr>timestamp := 1\<rparr>) \<le> timestamp x"
    by auto
  show ?thesis
    unfolding trimmedEvents_def Let_def append.simps
    by (rule sort_key_two_front[OF m r, unfolded Let_def])
qed

lemma createTrueSyntheticSnapshot_type:
  "createTrueSyntheticSnapshot replay events t = Inr snap \<Longrightarrow> type snap = 2 \<and> timestamp snap = t"
  by (auto simp: createTrueSyntheticSnapshot_def Let_def split: if_splits sum.splits)

lemma closeSnapshot_Some: "closeSnapshot events s = Some c \<Longrightarrow> c \<in> set events \<and> type c = 2"
  by (auto simp: closeSnapshot_def Let_def find_Some_iff dest: nth_mem)

lemma obtainSnapshot_type: "obtainSnapshot replay events s = Inr snap \<Longrightarrow> type snap = 2 \<and> timestamp snap = s"
  by (auto simp: obtainSnapshot_def split: option.splits if_splits
      dest: createTrueSyntheticSnapshot_type closeSnapshot_Some)

section \<open>Facts about the outputs of cut and trim\<close>

lemma cutEvents_sorted: "sorted (map timestamp (cutEvents href events k c1 c2))"
  unfolding cutEvents_def Let_def by (rule sorted_sort_key)

lemma cutEvents_unfold:
  "cutEvents href events k c1 c2 =
     (let rest = filter (\<lambda>e. timestamp e \<noteq> timestamp k \<or> type e \<noteq> 2)
                   (filter (\<lambda>e. timestamp e \<ge> min (timestamp k) c1 \<and> timestamp e \<le> c2) events)
      in if rest = [] then [k, cutFiller href (timestamp k)] else sort_key timestamp (k # rest))"
proof -
  define rest where "rest = filter (\<lambda>e. timestamp e \<noteq> timestamp k \<or> type e \<noteq> 2)
                   (filter (\<lambda>e. timestamp e \<ge> min (timestamp k) c1 \<and> timestamp e \<le> c2) events)"
  have unf: "cutEvents href events k c1 c2 =
          sort_key timestamp (if length (k # rest) < 2
             then (k # rest) @ [cutFiller href (timestamp (last (k # rest)))] else k # rest)"
    unfolding cutEvents_def Let_def rest_def ..
  have "cutEvents href events k c1 c2 =
      (if rest = [] then [k, cutFiller href (timestamp k)] else sort_key timestamp (k # rest))"
  proof (cases rest)
    case Nil
    then show ?thesis unfolding unf by (simp add: cutFiller_def)
  next
    case (Cons x xs)
    then show ?thesis unfolding unf by simp
  qed
  then show ?thesis unfolding Let_def rest_def .
qed

lemma cutEvents_length: "2 \<le> length (cutEvents href events k c1 c2)"
proof -
  define rest where "rest = filter (\<lambda>e. timestamp e \<noteq> timestamp k \<or> type e \<noteq> 2)
                   (filter (\<lambda>e. timestamp e \<ge> min (timestamp k) c1 \<and> timestamp e \<le> c2) events)"
  have "cutEvents href events k c1 c2 =
      (if rest = [] then [k, cutFiller href (timestamp k)] else sort_key timestamp (k # rest))"
    unfolding cutEvents_unfold Let_def rest_def ..
  moreover have "rest \<noteq> [] \<Longrightarrow> 2 \<le> length (sort_key timestamp (k # rest))"
    by (cases rest) (simp_all del: sort_key_simps)
  ultimately show ?thesis by (simp del: sort_key_simps)
qed

lemma cutEvents_members:
  assumes "k \<in> set events"
  shows "set (cutEvents href events k c1 c2) \<subseteq> set events
         \<or> cutEvents href events k c1 c2 = [k, cutFiller href (timestamp k)]"
proof -
  define rest where "rest = filter (\<lambda>e. timestamp e \<noteq> timestamp k \<or> type e \<noteq> 2)
                   (filter (\<lambda>e. timestamp e \<ge> min (timestamp k) c1 \<and> timestamp e \<le> c2) events)"
  have unf: "cutEvents href events k c1 c2 =
      (if rest = [] then [k, cutFiller href (timestamp k)] else sort_key timestamp (k # rest))"
    unfolding cutEvents_unfold Let_def rest_def ..
  have sub: "set rest \<subseteq> set events" unfolding rest_def by auto
  show ?thesis
  proof (cases "rest = []")
    case True
    then show ?thesis using unf by simp
  next
    case False
    then have "set (cutEvents href events k c1 c2) = set (k # rest)"
      using unf by (simp del: sort_key_simps)
    then show ?thesis using assms sub by auto
  qed
qed

lemma sorted_bounds:
  assumes "sorted (map timestamp events)" "x \<in> set events"
  shows "timestamp (hd events) \<le> timestamp x \<and> timestamp x \<le> timestamp (last events)"
proof -
  have ne: "events \<noteq> []" using assms(2) by auto
  have "timestamp x \<in> set (map timestamp events)" using assms(2) by simp
  then have "timestamp x \<le> last (map timestamp events)"
    using assms(1) by (rule sorted_le_last[rotated -1]) 
  then have up: "timestamp x \<le> timestamp (last events)" using ne by (simp add: last_map)
  obtain y ys where e: "events = y # ys" using ne by (cases events) auto
  then have "timestamp (hd events) \<le> timestamp x" using assms by auto
  then show ?thesis using up by simp
qed

lemma analyzeRecording_Some:
  "out \<noteq> [] \<Longrightarrow> \<exists>st. analyzeRecording out = Some st \<and> totalEvents st = length out
      \<and> duration st = (timestamp (last out) - timestamp (hd out)) / 1000"
  by (simp add: analyzeRecording_def Let_def)

lemma cutRecording_result:
  assumes "events \<noteq> []" "\<exists>e\<in>set events. type e = 2"
  shows "\<exists>k. k \<in> set events \<and> type k = 2 \<and>
           cutRecording href events c b a =
             Inr (cutEvents href events k (cutStart events c b) (cutEnd events c a))"
proof -
  let ?c = "cutStart events c b"
  have "fst (closestSnapshot ?c events (None, None)) \<noteq> None"
    using assms(2) by (simp add: closestSnapshot_None)
  then obtain k where k: "fst (closestSnapshot ?c events (None, None)) = Some k" by blast
  obtain pre post where "events = pre @ k # post" "type k = 2"
    using closestSnapshot_first_min[OF k] by blast
  moreover have "cutRecording href events c b a = Inr (cutEvents href events k ?c (cutEnd events c a))"
    using assms(1) k by (simp add: cutRecording_def Let_def)
  ultimately show ?thesis by auto
qed

lemma cutRecording_Inr:
  assumes "cutRecording href events c b a = Inr out"
  shows "\<exists>k. k \<in> set events \<and> type k = 2 \<and>
           out = cutEvents href events k (cutStart events c b) (cutEnd events c a)"
proof -
  let ?c = "cutStart events c b"
  have ne: "events \<noteq> []" using assms by (auto simp: cutRecording_def)
  then obtain k where k: "fst (closestSnapshot ?c events (None, None)) = Some k"
    and out: "out = cutEvents href events k ?c (cutEnd events c a)"
    using assms by (auto simp: cutRecording_def Let_def split: option.splits)
  obtain pre post where "events = pre @ k # post" "type k = 2"
    using closestSnapshot_first_min[OF k] by blast
  then show ?thesis using out by auto
qed

lemma trimmedEvents_sorted: "sorted (map timestamp (trimmedEvents href events kf s e))"
  unfolding trimmedEvents_def Let_def by (rule sorted_sort_key)

lemma trimMeta_fields: "type (trimMeta href events kf) = 4 \<and> timestamp (trimMeta href events kf) = 0"
  by (simp add: trimMeta_def Let_def)

lemma clamp_bounds:
  "timestamp (hd events) \<le> clampStart events s \<and> clampEnd events e \<le> timestamp (last events)"
  by (simp add: clampStart_def clampEnd_def Let_def)

lemma trimmedEvents_count:
  assumes "events \<noteq> []"
  shows "length (trimmedEvents href events kf (clampStart events s) e) \<le> length events + 1"
proof -
  let ?P = "\<lambda>event. timestamp event > clampStart events s \<and> timestamp event \<le> e"
  have "hd events \<in> set events" using assms by simp
  moreover have "\<not> ?P (hd events)" using clamp_bounds[of events s] by auto
  ultimately have "length (filter ?P events) < length events"
    by (rule length_filter_less)
  then show ?thesis by (simp add: trimmedEvents_layout del: sort_key_simps)
qed

lemma trimmedEvents_span:
  assumes "s < e"
  shows "timestamp (last (trimmedEvents href events kf s e)) - timestamp (hd (trimmedEvents href events kf s e))
           \<le> e - s + 2"
proof -
  let ?tail = "sort_key timestamp
         (map (\<lambda>event. event\<lparr>timestamp := timestamp event - s + 2\<rparr>)
            (filter (\<lambda>event. timestamp event > s \<and> timestamp event \<le> e) events))"
  have lay: "trimmedEvents href events kf s e = trimMeta href events kf # kf\<lparr>timestamp := 1\<rparr> # ?tail"
    by (rule trimmedEvents_layout)
  have hd0: "timestamp (hd (trimmedEvents href events kf s e)) = 0"
    unfolding lay by (simp add: trimMeta_def Let_def)
  have "timestamp (last (trimMeta href events kf # kf\<lparr>timestamp := 1\<rparr> # ?tail)) \<le> e - s + 2"
  proof (cases "?tail = []")
    case True
    then show ?thesis using assms by (simp del: sort_key_simps)
  next
    case False
    then have "last ?tail \<in> set ?tail" by (rule last_in_set)
    then have "timestamp (last ?tail) \<le> e - s + 2" by (auto simp del: sort_key_simps)
    then show ?thesis using False by (simp del: sort_key_simps)
  qed
  then show ?thesis using hd0 unfolding lay by simp
qed

lemma fallbackEvents_count:
  assumes "i < length events"
  shows "length (fallbackEvents events b i s e) \<le> length events + 1"
proof -
  let ?c = "collectEvents s e (drop (i + 1) events)"
  let ?o = "sort_key timestamp (b # metaCopy events b @ ?c)"
  have m: "length (metaCopy events b) \<le> 1" by (simp add: metaCopy_def split: option.splits)
  have "length ?c \<le> length (drop (i + 1) events)" by (rule collectEvents_length)
  then have c: "length ?c + i + 1 \<le> length events" using assms by simp
  have o: "length ?o = 1 + length (metaCopy events b) + length ?c"
    by (simp del: sort_key_simps)
  have "fallbackEvents events b i s e =
      (if length ?o = 1 then ?o @ [minimalEvent (timestamp b + 10)] else ?o)"
    unfolding fallbackEvents_unfold Let_def ..
  then have "length (fallbackEvents events b i s e) = (if length ?o = 1 then 2 else length ?o)"
    by (simp del: sort_key_simps)
  then show ?thesis using o m c assms by (auto simp del: sort_key_simps)
qed

lemma trimRecordingFallback_count:
  assumes "trimRecordingFallback events s e = Inr out"
  shows "length out \<le> length events + 1"
proof -
  obtain b i where sel: "selectBase events s = Inr (b, i)"
    using assms by (auto simp: trimRecordingFallback_def split: sum.splits)
  let ?new = "fallbackEvents events b i s e"
  have "shiftAll (shiftEvent s (s - timestamp b) (timestamp (hd ?new))) ?new = Inr out"
    using assms sel by (auto simp: trimRecordingFallback_def Let_def split: sum.splits if_splits)
  then have "length out = length ?new" using shiftAll_Inr by blast
  then show ?thesis using fallbackEvents_count selectBase_Inr[OF sel] by simp
qed

section \<open>trimRecording: range check, recovery, exact match, output\<close>

text \<open>
  Claim C6. For a non-empty log, \<open>trimRecording\<close> raises a start time below the first
  event's timestamp to that timestamp and lowers an end time above the last event's
  timestamp to that timestamp, and goes on with the adjusted range. It throws the
  invalid-range error exactly when, after this adjustment, the start is not before the
  end.
\<close>

theorem trimRecording_clamp_range:
  assumes "events \<noteq> []"
  shows
   "(let startAbs = (if startMs < timestamp (hd events) then timestamp (hd events) else startMs);
         endAbs = (if endMs > timestamp (last events) then timestamp (last events) else endMs)
     in ((\<exists>a b. trimRecording href replay events startMs endMs = Inl (InvalidTimeRange a b))
           \<longleftrightarrow> startAbs \<ge> endAbs)
      \<and> (startAbs \<ge> endAbs \<longrightarrow>
            trimRecording href replay events startMs endMs = Inl (InvalidTimeRange startAbs endAbs))
      \<and> (startAbs < endAbs \<longrightarrow>
            trimRecording href replay events startMs endMs =
              (case obtainSnapshot replay events startAbs of
                 Inr syntheticSnapshot \<Rightarrow> Inr (trimmedEvents href events syntheticSnapshot startAbs endAbs)
               | Inl err \<Rightarrow> trimRecordingFallback events startAbs endAbs)))"
proof -
  define startAbs where "startAbs = (if startMs < timestamp (hd events) then timestamp (hd events) else startMs)"
  define endAbs where "endAbs = (if endMs > timestamp (last events) then timestamp (last events) else endMs)"
  have cs: "clampStart events startMs = startAbs" and ce: "clampEnd events endMs = endAbs"
    by (simp_all add: clampStart_def clampEnd_def startAbs_def endAbs_def Let_def)
  have bad: "startAbs \<ge> endAbs \<Longrightarrow>
      trimRecording href replay events startMs endMs = Inl (InvalidTimeRange startAbs endAbs)"
    using assms by (simp add: trimRecording_def cs ce Let_def)
  have good: "startAbs < endAbs \<Longrightarrow>
            trimRecording href replay events startMs endMs =
              (case obtainSnapshot replay events startAbs of
                 Inr syntheticSnapshot \<Rightarrow> Inr (trimmedEvents href events syntheticSnapshot startAbs endAbs)
               | Inl err \<Rightarrow> trimRecordingFallback events startAbs endAbs)"
    using assms by (simp add: trimRecording_def cs ce Let_def)
  have only: "startAbs < endAbs \<Longrightarrow>
      trimRecording href replay events startMs endMs \<noteq> Inl (InvalidTimeRange a b)" for a b
    using good by (auto split: sum.splits dest: trimRecordingFallback_error)
  have "(\<exists>a b. trimRecording href replay events startMs endMs = Inl (InvalidTimeRange a b))
           \<longleftrightarrow> startAbs \<ge> endAbs"
    using bad only by (cases "startAbs < endAbs") auto
  then show ?thesis
    using bad good unfolding Let_def startAbs_def[symmetric] endAbs_def[symmetric] by blast
qed

theorem trimRecording_clamp_range_witness:
  "trimRecording ''http://localhost/'' failingReplay [ev 2 1000, ev 3 2000, ev 3 3000] 0 9999 =
     Inr (trimmedEvents ''http://localhost/'' [ev 2 1000, ev 3 2000, ev 3 3000] (ev 2 1000) 1000 3000)
   \<and> trimRecording ''http://localhost/'' failingReplay [ev 2 1000, ev 3 2000, ev 3 3000] 5000 9999 =
     Inl (InvalidTimeRange 5000 3000)"
  using trimRecording_clamp_range[of "[ev 2 1000, ev 3 2000, ev 3 3000]" 0 9999 "''http://localhost/''" failingReplay]
    trimRecording_clamp_range[of "[ev 2 1000, ev 3 2000, ev 3 3000]" 5000 9999 "''http://localhost/''" failingReplay]
  by (simp add: ev_def obtainSnapshot_def closeSnapshot_def)

text \<open>
  Claim C2. For a non-empty log with a full snapshot and a range that is valid after
  clamping: when the reconstruction is reached and \<open>createTrueSyntheticSnapshot\<close> fails,
  whatever the error, \<open>trimRecording\<close> returns what \<open>trimRecordingFallback\<close> returns for the
  clamped range. So an error reaches the caller only when the fallback fails too, and for
  a log ordered by timestamp the fallback does not fail.
\<close>

theorem trimRecording_recovers_by_fallback:
  assumes "events \<noteq> []"
    and "\<exists>e\<in>set events. type e = 2"
    and "clampStart events startMs < clampEnd events endMs"
    and "\<not> (\<exists>c. closeSnapshot events (clampStart events startMs) = Some c
              \<and> timestamp c = clampStart events startMs)"
    and "createTrueSyntheticSnapshot replay events (clampStart events startMs) = Inl err"
  shows "trimRecording href replay events startMs endMs =
           trimRecordingFallback events (clampStart events startMs) (clampEnd events endMs)
       \<and> (\<forall>e. trimRecording href replay events startMs endMs = Inl e \<longrightarrow>
              trimRecordingFallback events (clampStart events startMs) (clampEnd events endMs) = Inl e)
       \<and> (sorted (map timestamp events) \<longrightarrow>
             (\<exists>out. trimRecording href replay events startMs endMs = Inr out \<and> 2 \<le> length out))"
proof -
  let ?s = "clampStart events startMs" and ?e = "clampEnd events endMs"
  have "obtainSnapshot replay events ?s = Inl err"
    using assms(4,5) by (auto simp: obtainSnapshot_def split: option.splits)
  then have eq: "trimRecording href replay events startMs endMs = trimRecordingFallback events ?s ?e"
    using assms(1,3) by (simp add: trimRecording_def Let_def)
  have "\<exists>out. trimRecordingFallback events ?s ?e = Inr out \<and> 2 \<le> length out"
    if "sorted (map timestamp events)"
  proof -
    obtain b i where "selectBase events ?s = Inr (b, i)"
      using selectBase_total[OF assms(2)] by blast
    from trimRecordingFallback_succeeds[OF that this] show ?thesis by blast
  qed
  then show ?thesis using eq by simp
qed

theorem trimRecording_recovers_by_fallback_witness:
  "trimRecording ''http://localhost/'' failingReplay [ev 2 1000, ev 3 2000, ev 3 3000] 1500 3000 =
     trimRecordingFallback [ev 2 1000, ev 3 2000, ev 3 3000] 1500 3000
   \<and> (\<exists>out. trimRecording ''http://localhost/'' failingReplay [ev 2 1000, ev 3 2000, ev 3 3000] 1500 3000 = Inr out
         \<and> 2 \<le> length out)"
proof -
  let ?log = "[ev 2 1000, ev 3 2000, ev 3 3000]"
  have s: "clampStart ?log 1500 = 1500" and e: "clampEnd ?log 3000 = 3000"
    by (simp_all add: clampStart_def clampEnd_def ev_def)
  have h1: "?log \<noteq> []" by simp
  have h2: "\<exists>e\<in>set ?log. type e = 2" by (simp add: ev_def)
  have h3: "clampStart ?log 1500 < clampEnd ?log 3000" by (simp add: s e)
  have "closeSnapshot ?log 1500 = Some (ev 2 1000)"
    by (simp add: closeSnapshot_def ev_def)
  then have h4: "\<not> (\<exists>c. closeSnapshot ?log (clampStart ?log 1500) = Some c
              \<and> timestamp c = clampStart ?log 1500)"
    unfolding s by (simp add: ev_def)
  have h5: "createTrueSyntheticSnapshot failingReplay ?log (clampStart ?log 1500) =
              Inl (ReplayError ''Could not find replay iframe'')"
    by (simp add: createTrueSyntheticSnapshot_def failingReplay_def)
  have h6: "sorted (map timestamp ?log)" by (simp add: ev_def)
  show ?thesis
    using trimRecording_recovers_by_fallback[OF h1 h2 h3 h4 h5, of "''http://localhost/''"] h6
    unfolding s e by blast
qed

text \<open>
  Claim C5, at the log with full snapshots at 0 and 500 and the range from 500 to 1000.
  The search \<open>snapshots.find\<close> stops at the snapshot at 0, which is within one second of
  the start but not at it. The snapshot at 500 is never looked at: the result is the
  reconstruction's, and when the replay fails it is the fallback's.
\<close>

theorem trimRecording_exact_snapshot_missed:
  "closeSnapshot [ev 2 0, ev 2 500, ev 3 1000] 500 = Some (ev 2 0)
   \<and> obtainSnapshot capturingReplay [ev 2 0, ev 2 500, ev 3 1000] 500 =
       createTrueSyntheticSnapshot capturingReplay [ev 2 0, ev 2 500, ev 3 1000] 500
   \<and> obtainSnapshot capturingReplay [ev 2 0, ev 2 500, ev 3 1000] 500 \<noteq> Inr (ev 2 500)
   \<and> trimRecording ''http://localhost/'' capturingReplay [ev 2 0, ev 2 500, ev 3 1000] 500 1000 \<noteq>
       Inr (trimmedEvents ''http://localhost/'' [ev 2 0, ev 2 500, ev 3 1000] (ev 2 500) 500 1000)
   \<and> trimRecording ''http://localhost/'' failingReplay [ev 2 0, ev 2 500, ev 3 1000] 500 1000 =
       trimRecordingFallback [ev 2 0, ev 2 500, ev 3 1000] 500 1000"
  by (simp add: ev_def closeSnapshot_def obtainSnapshot_def createTrueSyntheticSnapshot_def
       capturingReplay_def failingReplay_def trimRecording_def clampStart_def clampEnd_def
       trimmedEvents_layout firstTabId_def)





section \<open>The base snapshot of the fallback\<close>



section \<open>The content search\<close>






lemma findEventsByContent_sample:
  "findEventsByContent stringifyEvent [metaAt 1000, ev 2 1001, mutation 1500] ''Example.ORG'' =
     [metaAt 1000]"
  by code_simp





section \<open>Invariants and statistics of the derived logs\<close>

text \<open>
  Claim C1, amended. For every valid log: \<open>cutRecording\<close> returns a log with
  non-decreasing timestamps, at least two events and a full keyframe (type 2) in it.
  With a range that is valid after clamping, \<open>trimRecording\<close> returns, when the boundary
  keyframe was obtained, a log with non-decreasing timestamps that starts with a Meta
  event (type 4) at timestamp 0 followed by the full keyframe at timestamp 1; and when the
  reconstruction failed, the fallback's log, which has at least two events and starts
  with a full keyframe.
\<close>

theorem outputs_invariants:
  assumes "validLog events"
  shows
   "(\<exists>out. cutRecording href events center before after = Inr out
        \<and> sorted (map timestamp out) \<and> 2 \<le> length out \<and> (\<exists>k\<in>set out. type k = 2))
    \<and> (clampStart events startMs < clampEnd events endMs \<longrightarrow>
         (\<forall>keyframe. obtainSnapshot replay events (clampStart events startMs) = Inr keyframe \<longrightarrow>
            (\<exists>metaEvent rest.
               trimRecording href replay events startMs endMs =
                 Inr (metaEvent # keyframe\<lparr>timestamp := 1\<rparr> # rest)
               \<and> type metaEvent = 4 \<and> timestamp metaEvent = 0 \<and> type keyframe = 2
               \<and> sorted (map timestamp (metaEvent # keyframe\<lparr>timestamp := 1\<rparr> # rest))))
       \<and> (\<forall>err. obtainSnapshot replay events (clampStart events startMs) = Inl err \<longrightarrow>
            (\<exists>out. trimRecording href replay events startMs endMs = Inr out
               \<and> 2 \<le> length out \<and> type (hd out) = 2)))"
proof (intro conjI impI allI)
  have ne: "events \<noteq> []" and kf: "\<exists>e\<in>set events. type e = 2"
    using assms by (auto simp: validLog_def)
  obtain k where k: "k \<in> set events" "type k = 2"
    "cutRecording href events center before after =
       Inr (cutEvents href events k (cutStart events center before) (cutEnd events center after))"
    using cutRecording_result[OF ne kf] by blast
  show "\<exists>out. cutRecording href events center before after = Inr out
        \<and> sorted (map timestamp out) \<and> 2 \<le> length out \<and> (\<exists>k\<in>set out. type k = 2)"
    using k cutEvents_sorted cutEvents_length cutEvents_contains by blast
next
  fix keyframe
  let ?s = "clampStart events startMs" and ?e = "clampEnd events endMs"
  assume rng: "?s < ?e" and o: "obtainSnapshot replay events ?s = Inr keyframe"
  have ne: "events \<noteq> []" using assms by (auto simp: validLog_def)
  have run: "trimRecording href replay events startMs endMs = Inr (trimmedEvents href events keyframe ?s ?e)"
    using ne rng o by (simp add: trimRecording_def Let_def)
  show "\<exists>metaEvent rest.
               trimRecording href replay events startMs endMs =
                 Inr (metaEvent # keyframe\<lparr>timestamp := 1\<rparr> # rest)
               \<and> type metaEvent = 4 \<and> timestamp metaEvent = 0 \<and> type keyframe = 2
               \<and> sorted (map timestamp (metaEvent # keyframe\<lparr>timestamp := 1\<rparr> # rest))"
    using run trimmedEvents_layout[of href events keyframe ?s ?e]
      trimmedEvents_sorted[of href events keyframe ?s ?e] trimMeta_fields[of href events keyframe]
      obtainSnapshot_type[OF o]
    by (metis (no_types, lifting))
next
  fix err
  let ?s = "clampStart events startMs" and ?e = "clampEnd events endMs"
  assume rng: "?s < ?e" and o: "obtainSnapshot replay events ?s = Inl err"
  have ne: "events \<noteq> []" and kf: "\<exists>e\<in>set events. type e = 2"
    and srt: "sorted (map timestamp events)"
    using assms by (auto simp: validLog_def)
  have run: "trimRecording href replay events startMs endMs = trimRecordingFallback events ?s ?e"
    using ne rng o by (simp add: trimRecording_def Let_def)
  obtain b i where sel: "selectBase events ?s = Inr (b, i)"
    using selectBase_total[OF kf] by blast
  obtain out where "trimRecordingFallback events ?s ?e = Inr out" "2 \<le> length out"
     "hd out = b\<lparr>timestamp := timestamp b - ?s + 100\<rparr>"
    using trimRecordingFallback_succeeds[OF srt sel] by blast
  moreover have "type b = 2" using selectBase_Inr[OF sel] by simp
  ultimately show "\<exists>out. trimRecording href replay events startMs endMs = Inr out
               \<and> 2 \<le> length out \<and> type (hd out) = 2"
    using run by simp
qed

theorem outputs_invariants_witness:
  "validLog [ev 2 1000, ev 3 2000, ev 3 3000]
   \<and> cutRecording ''http://localhost/'' [ev 2 1000, ev 3 2000, ev 3 3000] 1 1 1 =
        Inr [ev 2 1000, ev 3 2000, ev 3 3000]
   \<and> (\<exists>metaEvent rest.
         trimRecording ''http://localhost/'' capturingReplay [ev 2 1000, ev 3 2000, ev 3 3000] 1000 3000 =
           Inr (metaEvent # ev 2 1 # rest) \<and> type metaEvent = 4 \<and> timestamp metaEvent = 0)
   \<and> trimRecording ''http://localhost/'' failingReplay [ev 2 1000, ev 3 2000, ev 3 3000] 1500 3000 =
        Inr [ev 2 (-400), ev 3 600, ev 3 1600]"
proof -
  let ?log = "[ev 2 1000, ev 3 2000, ev 3 3000]"
  have v: "validLog ?log" by (simp add: validLog_def ev_def)
  have c: "cutRecording ''http://localhost/'' ?log 1 1 1 = Inr ?log" by code_simp
  have f: "trimRecording ''http://localhost/'' failingReplay ?log 1500 3000 =
        Inr [ev 2 (-400), ev 3 600, ev 3 1600]" by code_simp
  have r1: "clampStart ?log 1000 < clampEnd ?log 3000" by code_simp
  have o1: "obtainSnapshot capturingReplay ?log (clampStart ?log 1000) = Inr (ev 2 1000)" by code_simp
  have "(ev 2 1000)\<lparr>timestamp := 1\<rparr> = ev 2 1" by (simp add: ev_def)
  then have "\<exists>metaEvent rest.
         trimRecording ''http://localhost/'' capturingReplay ?log 1000 3000 =
           Inr (metaEvent # ev 2 1 # rest) \<and> type metaEvent = 4 \<and> timestamp metaEvent = 0"
    using outputs_invariants[OF v, of "''http://localhost/''" 1 1 1 1000 3000 capturingReplay] r1 o1
    by (metis (no_types, lifting))
  then show ?thesis using v c f by blast
qed

text \<open>
  The claim as stated asks of every output non-decreasing timestamps, at least two
  events and a full keyframe first. Three valid logs: the trimmed log starts with the
  Meta event; the cut log starts with a mutation that precedes the anchor; the fallback's
  log puts a compressed mutation (timestamp 25) after the base keyframe (timestamp 36).
\<close>

theorem outputs_invariants_counterexample:
  "validLog [ev 2 0, ev 3 10]
   \<and> trimRecording ''http://localhost/'' failingReplay [ev 2 0, ev 3 10] 0 10 =
        Inr [\<lparr>type = 4,
              data = JObj [(''href'', JStr ''http://localhost/''), (''width'', JNum 1920),
                           (''height'', JNum 1080)],
              timestamp = 0, tabId = None\<rparr>, ev 2 1, ev 3 12]
   \<and> \<not> outputInvariants
        [\<lparr>type = 4,
          data = JObj [(''href'', JStr ''http://localhost/''), (''width'', JNum 1920),
                       (''height'', JNum 1080)],
          timestamp = 0, tabId = None\<rparr>, ev 2 1, ev 3 12]
   \<and> validLog [ev 2 0, ev 3 9000, ev 2 10000, ev 3 11000]
   \<and> cutRecording ''http://localhost/'' [ev 2 0, ev 3 9000, ev 2 10000, ev 3 11000] 10 2 2 =
        Inr [ev 3 9000, ev 2 10000, ev 3 11000]
   \<and> \<not> outputInvariants [ev 3 9000, ev 2 10000, ev 3 11000]
   \<and> validLog [ev 2 0, mutation 16, ev 3 64, ev 3 100]
   \<and> trimRecording ''http://localhost/'' failingReplay [ev 2 0, mutation 16, ev 3 64, ev 3 100] 64 100 =
        Inr [ev 2 36, mutation 25, ev 3 100, ev 3 136]
   \<and> \<not> outputInvariants [ev 2 36, mutation 25, ev 3 100, ev 3 136]"
  by (intro conjI; code_simp)

text \<open>
  Claim C4, amended. For every valid log: the log returned by \<open>trimRecording\<close> has at most
  one event more than the original, and when the boundary keyframe was obtained its
  duration is at most the original duration plus 0.002 seconds (the two slots of the Meta
  event and the keyframe). The log returned by \<open>cutRecording\<close> has a duration of at most
  the original duration, unless only the anchor was in range and the filler event was
  appended: then the duration is 0.1 seconds.
\<close>

theorem analyze_after_trim_and_cut:
  assumes "validLog events"
  shows
   "\<exists>original. analyzeRecording events = Some original
      \<and> totalEvents original = length events
      \<and> (\<forall>out. trimRecording href replay events startMs endMs = Inr out \<longrightarrow>
           (\<exists>st. analyzeRecording out = Some st
              \<and> totalEvents st \<le> totalEvents original + 1
              \<and> ((\<exists>keyframe. obtainSnapshot replay events (clampStart events startMs) = Inr keyframe) \<longrightarrow>
                   duration st \<le> duration original + 2 / 1000)))
      \<and> (\<forall>out. cutRecording href events center before after = Inr out \<longrightarrow>
           (\<exists>st. analyzeRecording out = Some st
              \<and> (duration st \<le> duration original
                   \<or> (\<exists>k. out = [k, cutFiller href (timestamp k)] \<and> duration st = 1 / 10))))"
proof -
  have ne: "events \<noteq> []" and srt: "sorted (map timestamp events)"
    using assms by (auto simp: validLog_def)
  obtain original where orig: "analyzeRecording events = Some original"
    "totalEvents original = length events"
    "duration original = (timestamp (last events) - timestamp (hd events)) / 1000"
    using analyzeRecording_Some[OF ne] by blast
  let ?s = "clampStart events startMs" and ?e = "clampEnd events endMs"
  have trim: "\<exists>st. analyzeRecording out = Some st
              \<and> totalEvents st \<le> totalEvents original + 1
              \<and> ((\<exists>keyframe. obtainSnapshot replay events ?s = Inr keyframe) \<longrightarrow>
                   duration st \<le> duration original + 2 / 1000)"
    if run: "trimRecording href replay events startMs endMs = Inr out" for out
  proof -
    have rng: "?s < ?e" using run ne by (auto simp: trimRecording_def Let_def split: if_splits)
    show ?thesis
    proof (cases "obtainSnapshot replay events ?s")
      case (Inl err)
      then have fb: "trimRecordingFallback events ?s ?e = Inr out"
        using run ne rng by (simp add: trimRecording_def Let_def)
      then have len: "length out \<le> length events + 1" by (rule trimRecordingFallback_count)
      have "out \<noteq> []"
        using fb by (auto simp: trimRecordingFallback_def Let_def split: sum.splits prod.splits if_splits)
      then obtain st where "analyzeRecording out = Some st" "totalEvents st = length out"
        using analyzeRecording_Some by blast
      then show ?thesis using len orig(2) Inl by auto
    next
      case (Inr kf)
      then have out: "out = trimmedEvents href events kf ?s ?e"
        using run ne rng by (simp add: trimRecording_def Let_def)
      have "out \<noteq> []" unfolding out trimmedEvents_layout by simp
      then obtain st where st: "analyzeRecording out = Some st" "totalEvents st = length out"
        "duration st = (timestamp (last out) - timestamp (hd out)) / 1000"
        using analyzeRecording_Some by blast
      have "length out \<le> length events + 1" unfolding out by (rule trimmedEvents_count[OF ne])
      moreover have "timestamp (last out) - timestamp (hd out) \<le> ?e - ?s + 2"
        unfolding out by (rule trimmedEvents_span[OF rng])
      then have "timestamp (last out) - timestamp (hd out)
                   \<le> timestamp (last events) - timestamp (hd events) + 2"
        using clamp_bounds[of events startMs endMs] by linarith
      then have "duration st \<le> duration original + 2 / 1000"
        unfolding st(3) orig(3) by (simp add: divide_simps)
      ultimately show ?thesis using st orig(2) by auto
    qed
  qed
  have cut: "\<exists>st. analyzeRecording out = Some st
              \<and> (duration st \<le> duration original
                   \<or> (\<exists>k. out = [k, cutFiller href (timestamp k)] \<and> duration st = 1 / 10))"
    if run: "cutRecording href events center before after = Inr out" for out
  proof -
    obtain k where k: "k \<in> set events"
      "out = cutEvents href events k (cutStart events center before) (cutEnd events center after)"
      using cutRecording_Inr[OF run] by blast
    have "2 \<le> length out" unfolding k(2) by (rule cutEvents_length)
    then have one: "out \<noteq> []" by auto
    then obtain st where st: "analyzeRecording out = Some st"
        "duration st = (timestamp (last out) - timestamp (hd out)) / 1000"
      using analyzeRecording_Some by blast
    from cutEvents_members[OF k(1), of href "cutStart events center before" "cutEnd events center after"]
    consider (sub) "set out \<subseteq> set events" | (pad) "out = [k, cutFiller href (timestamp k)]"
      unfolding k(2) by blast
    then show ?thesis
    proof cases
      case sub
      have "last out \<in> set events" "hd out \<in> set events" using sub one by auto
      then have "timestamp (last out) \<le> timestamp (last events)"
        "timestamp (hd events) \<le> timestamp (hd out)"
        using sorted_bounds[OF srt] by blast+
      then have "duration st \<le> duration original"
        unfolding st(2) orig(3) by (simp add: divide_simps)
      then show ?thesis using st(1) by blast
    next
      case pad
      then have "duration st = 1 / 10" unfolding st(2) by (simp add: cutFiller_def)
      then show ?thesis using st(1) pad by blast
    qed
  qed
  show ?thesis using orig(1,2) trim cut by blast
qed

theorem analyze_after_trim_and_cut_witness:
  "validLog [ev 2 1000, ev 3 2000, ev 3 3000]
   \<and> (\<exists>original out st.
         analyzeRecording [ev 2 1000, ev 3 2000, ev 3 3000] = Some original
         \<and> trimRecording ''http://localhost/'' failingReplay [ev 2 1000, ev 3 2000, ev 3 3000] 1000 3000 = Inr out
         \<and> analyzeRecording out = Some st
         \<and> totalEvents st \<le> totalEvents original + 1
         \<and> duration st \<le> duration original + 2 / 1000)
   \<and> (\<exists>original out st.
         analyzeRecording [ev 2 1000, ev 3 2000, ev 3 3000] = Some original
         \<and> cutRecording ''http://localhost/'' [ev 2 1000, ev 3 2000, ev 3 3000] 1 1 1 = Inr out
         \<and> analyzeRecording out = Some st
         \<and> duration st \<le> duration original)"
proof -
  let ?log = "[ev 2 1000, ev 3 2000, ev 3 3000]"
  let ?out = "[\<lparr>type = 4,
              data = JObj [(''href'', JStr ''http://localhost/''), (''width'', JNum 1920),
                           (''height'', JNum 1080)],
              timestamp = 0, tabId = None\<rparr>, ev 2 1, ev 3 1002, ev 3 2002]"
  have v: "validLog ?log" by (simp add: validLog_def ev_def)
  have t: "trimRecording ''http://localhost/'' failingReplay ?log 1000 3000 = Inr ?out" by code_simp
  have o: "obtainSnapshot failingReplay ?log (clampStart ?log 1000) = Inr (ev 2 1000)" by code_simp
  have c: "cutRecording ''http://localhost/'' ?log 1 1 1 = Inr ?log" by code_simp
  have nf: "?log \<noteq> [ev 2 1000, cutFiller ''http://localhost/'' 1000]" by simp
  obtain original where orig: "analyzeRecording ?log = Some original"
    and tr: "\<forall>out. trimRecording ''http://localhost/'' failingReplay ?log 1000 3000 = Inr out \<longrightarrow>
           (\<exists>st. analyzeRecording out = Some st
              \<and> totalEvents st \<le> totalEvents original + 1
              \<and> ((\<exists>keyframe. obtainSnapshot failingReplay ?log (clampStart ?log 1000) = Inr keyframe) \<longrightarrow>
                   duration st \<le> duration original + 2 / 1000))"
    and ct: "\<forall>out. cutRecording ''http://localhost/'' ?log 1 1 1 = Inr out \<longrightarrow>
           (\<exists>st. analyzeRecording out = Some st
              \<and> (duration st \<le> duration original
                   \<or> (\<exists>k. out = [k, cutFiller ''http://localhost/'' (timestamp k)] \<and> duration st = 1 / 10)))"
    using analyze_after_trim_and_cut[OF v, of "''http://localhost/''" failingReplay 1000 3000 1 1 1]
    by blast
  from tr t o obtain st where "analyzeRecording ?out = Some st"
     "totalEvents st \<le> totalEvents original + 1" "duration st \<le> duration original + 2 / 1000"
    by blast
  moreover from ct c obtain st' where "analyzeRecording ?log = Some st'"
     "duration st' \<le> duration original
        \<or> (\<exists>k. ?log = [k, cutFiller ''http://localhost/'' (timestamp k)] \<and> duration st' = 1 / 10)"
    by blast
  then have "analyzeRecording ?log = Some st'" "duration st' \<le> duration original" by auto
  ultimately show ?thesis using v orig t c by blast
qed

text \<open>
  The claim as stated: duration and event count of a trimmed log, and the duration of a
  cut log, do not exceed the original's. Trimming the whole of a two-event log gives three
  events that span 12 ms instead of 10 ms; a cut that keeps only the anchor spans 100 ms,
  the original 50 ms.
\<close>

theorem analyze_after_trim_and_cut_counterexample:
  "validLog [ev 2 0, ev 3 10]
   \<and> trimRecording ''http://localhost/'' failingReplay [ev 2 0, ev 3 10] 0 10 =
        Inr [\<lparr>type = 4,
              data = JObj [(''href'', JStr ''http://localhost/''), (''width'', JNum 1920),
                           (''height'', JNum 1080)],
              timestamp = 0, tabId = None\<rparr>, ev 2 1, ev 3 12]
   \<and> \<not> noLongerThan
        [\<lparr>type = 4,
          data = JObj [(''href'', JStr ''http://localhost/''), (''width'', JNum 1920),
                       (''height'', JNum 1080)],
          timestamp = 0, tabId = None\<rparr>, ev 2 1, ev 3 12] [ev 2 0, ev 3 10]
   \<and> \<not> noMoreEventsThan
        [\<lparr>type = 4,
          data = JObj [(''href'', JStr ''http://localhost/''), (''width'', JNum 1920),
                       (''height'', JNum 1080)],
          timestamp = 0, tabId = None\<rparr>, ev 2 1, ev 3 12] [ev 2 0, ev 3 10]
   \<and> validLog [ev 2 0, ev 3 50]
   \<and> cutRecording ''http://localhost/'' [ev 2 0, ev 3 50] 0 0 0 =
        Inr [ev 2 0, cutFiller ''http://localhost/'' 0]
   \<and> \<not> noLongerThan [ev 2 0, cutFiller ''http://localhost/'' 0] [ev 2 0, ev 3 50]"
  by (intro conjI; code_simp)

end
